theory Spec2Isabelle
  imports Complex_Main "HOL-Library.Multiset"
begin

section \<open>JavaScript containers\<close>

text \<open>
  A JavaScript \<^verbatim>\<open>Map\<close> iterates in insertion order and \<^verbatim>\<open>set\<close> on a key that
  is present keeps the key's position, so a \<^verbatim>\<open>Map\<close> is an association list with
  update in place. A \<^verbatim>\<open>Set\<close> is a list without repetition, in insertion order.
\<close>

type_synonym ('k, 'v) jmap = "('k \<times> 'v) list"

definition jmap_get :: "('k, 'v) jmap \<Rightarrow> 'k \<Rightarrow> 'v option" where
  "jmap_get m k = map_of m k"

definition jmap_has :: "('k, 'v) jmap \<Rightarrow> 'k \<Rightarrow> bool" where
  "jmap_has m k = (map_of m k \<noteq> None)"

fun jmap_set :: "('k, 'v) jmap \<Rightarrow> 'k \<Rightarrow> 'v \<Rightarrow> ('k, 'v) jmap" where
  "jmap_set [] k v = [(k, v)]"
| "jmap_set ((k', v') # m) k v =
     (if k' = k then (k, v) # m else (k', v') # jmap_set m k v)"

type_synonym 'a jset = "'a list"

definition jset_has :: "'a jset \<Rightarrow> 'a \<Rightarrow> bool" where
  "jset_has s x = (x \<in> set s)"

definition jset_add :: "'a jset \<Rightarrow> 'a \<Rightarrow> 'a jset" where
  "jset_add s x = (if jset_has s x then s else s @ [x])"

text \<open>\<^verbatim>\<open>new Set(arr)\<close>: the elements of the array, first occurrences only.\<close>

definition jset_of_list :: "'a list \<Rightarrow> 'a jset" where
  "jset_of_list xs = fold (\<lambda>x s. jset_add s x) xs []"

section \<open>Numbers as strings\<close>

text \<open>
  Contest identifiers and ratings are integers (spec, section 6). A template literal
  renders a number in decimal.
\<close>

definition digit_char :: "int \<Rightarrow> char" where
  "digit_char d = char_of (48 + d)"

function show_digits :: "int \<Rightarrow> string" where
  "show_digits i =
     (if i < 10 then [digit_char i] else show_digits (i div 10) @ [digit_char (i mod 10)])"
  by pat_completeness auto
termination
  by (relation "measure nat") auto

declare show_digits.simps [simp del]

definition show_int :: "int \<Rightarrow> string" where
  "show_int i = (if i < 0 then CHR ''-'' # show_digits (- i) else show_digits i)"

section \<open>Input records (spec, section 6)\<close>

record problem =
  p_contestId :: "int option"
  p_problemsetName :: "string option"
  p_index :: string
  p_tags :: "string list option"
  p_rating :: "int option"
  p_name :: "string option"

record submission =
  sub_problem :: "problem option"
  sub_verdict :: string
  sub_contestId :: "int option"

record problemset =
  problems :: "problem list"

text \<open>Truthiness of an optional number and of an optional string.\<close>

fun truthy_num :: "int option \<Rightarrow> bool" where
  "truthy_num None = False"
| "truthy_num (Some n) = (n \<noteq> 0)"

fun truthy_str :: "string option \<Rightarrow> bool" where
  "truthy_str None = False"
| "truthy_str (Some s) = (s \<noteq> [])"

text \<open>\<^verbatim>\<open>p.contestId || p.problemsetName\<close>, rendered inside a template literal.\<close>

definition contest_or_set :: "problem \<Rightarrow> string" where
  "contest_or_set p =
     (if truthy_num (p_contestId p) then show_int (the (p_contestId p))
      else the (p_problemsetName p))"

fun probKey :: "problem option \<Rightarrow> string" where
  "probKey None = ''PS-?''"
| "probKey (Some p) =
     (if \<not> truthy_num (p_contestId p) \<and> \<not> truthy_str (p_problemsetName p)
      then ''PS-'' @ p_index p
      else contest_or_set p @ ''-'' @ p_index p)"

section \<open>Aggregation: the problem index\<close>

record meta =
  meta_tags :: "string list"
  meta_rating :: "int option"
  meta_name :: string

text \<open>\<^verbatim>\<open>p.rating || null\<close>: a missing rating and the rating 0 both become null.\<close>

fun rating_or_null :: "int option \<Rightarrow> int option" where
  "rating_or_null None = None"
| "rating_or_null (Some r) = (if r = 0 then None else Some r)"

definition default_name :: "problem \<Rightarrow> string" where
  "default_name p =
     (if truthy_num (p_contestId p) then show_int (the (p_contestId p))
      else if truthy_str (p_problemsetName p) then the (p_problemsetName p)
      else ''PS'') @ ''-'' @ p_index p"

definition meta_of :: "problem \<Rightarrow> meta" where
  "meta_of p =
     \<lparr> meta_tags = (case p_tags p of None \<Rightarrow> [] | Some ts \<Rightarrow> ts),
       meta_rating = rating_or_null (p_rating p),
       meta_name = (if truthy_str (p_name p) then the (p_name p) else default_name p) \<rparr>"

record pindex =
  ix_probIndex :: "(string, bool) jmap"
  ix_perProblemMeta :: "(string, meta) jmap"

definition index_step :: "problem \<Rightarrow> pindex \<Rightarrow> pindex" where
  "index_step p ix =
     (let key = probKey (Some p)
      in \<lparr> ix_probIndex = jmap_set (ix_probIndex ix) key True,
           ix_perProblemMeta = jmap_set (ix_perProblemMeta ix) key (meta_of p) \<rparr>)"

definition build_index :: "problemset \<Rightarrow> pindex" where
  "build_index ps = fold index_step (problems ps) \<lparr> ix_probIndex = [], ix_perProblemMeta = [] \<rparr>"

section \<open>Aggregation: the submission classifier\<close>

record origin =
  origin_contest :: bool
  origin_practice :: bool

record status =
  status_solved :: bool
  status_failedContest :: bool
  status_failedPractice :: bool

definition contestFailVerdicts :: "string list" where
  "contestFailVerdicts =
     [''WRONG_ANSWER'', ''TIME_LIMIT_EXCEEDED'', ''RUNTIME_ERROR'', ''MEMORY_LIMIT_EXCEEDED'',
      ''IDLENESS_LIMIT_EXCEEDED'', ''REJECTED'', ''FAILED'', ''PRESENTATION_ERROR'', ''CHALLENGED'',
      ''PARTIAL'', ''COMPILATION_ERROR'', ''CRASHED'', ''SKIPPED'']"

record classifier =
  cl_solvedProblems :: "string jset"
  cl_perProblemOrigin :: "(string, origin) jmap"
  cl_perProblemStatus :: "(string, status) jmap"

definition new_origin :: origin where
  "new_origin = \<lparr> origin_contest = False, origin_practice = False \<rparr>"

definition new_status :: status where
  "new_status = \<lparr> status_solved = False, status_failedContest = False, status_failedPractice = False \<rparr>"

text \<open>
  One iteration of the loop over the submissions. The origin and the status of a key
  are objects held by their maps only, so mutating one is writing it back under its key.
\<close>

definition classify_step :: "(string, bool) jmap \<Rightarrow> submission \<Rightarrow> classifier \<Rightarrow> classifier" where
  "classify_step probIndex sub st =
     (case sub_problem sub of
        None \<Rightarrow> st
      | Some pr \<Rightarrow>
          let key = probKey (Some pr) in
          if \<not> jmap_has probIndex key then st
          else
            let origin = (case jmap_get (cl_perProblemOrigin st) key of
                            None \<Rightarrow> new_origin | Some og \<Rightarrow> og);
                status = (case jmap_get (cl_perProblemStatus st) key of
                            None \<Rightarrow> new_status | Some s \<Rightarrow> s);
                isContest = truthy_num (sub_contestId sub);
                verdict = sub_verdict sub
            in if verdict = ''OK'' then
                 \<lparr> cl_solvedProblems = jset_add (cl_solvedProblems st) key,
                   cl_perProblemOrigin = jmap_set (cl_perProblemOrigin st) key
                     (if isContest then origin\<lparr>origin_contest := True\<rparr>
                      else origin\<lparr>origin_practice := True\<rparr>),
                   cl_perProblemStatus = jmap_set (cl_perProblemStatus st) key
                     (status\<lparr>status_solved := True\<rparr>) \<rparr>
               else if \<not> status_solved status \<and> verdict \<in> set contestFailVerdicts then
                 \<lparr> cl_solvedProblems = cl_solvedProblems st,
                   cl_perProblemOrigin = jmap_set (cl_perProblemOrigin st) key origin,
                   cl_perProblemStatus = jmap_set (cl_perProblemStatus st) key
                     (if isContest then status\<lparr>status_failedContest := True\<rparr>
                      else status\<lparr>status_failedPractice := True\<rparr>) \<rparr>
               else
                 \<lparr> cl_solvedProblems = cl_solvedProblems st,
                   cl_perProblemOrigin = jmap_set (cl_perProblemOrigin st) key origin,
                   cl_perProblemStatus = jmap_set (cl_perProblemStatus st) key status \<rparr>)"

definition classify :: "(string, bool) jmap \<Rightarrow> submission list \<Rightarrow> classifier" where
  "classify probIndex subs =
     fold (classify_step probIndex) subs
       \<lparr> cl_solvedProblems = [], cl_perProblemOrigin = [], cl_perProblemStatus = [] \<rparr>"

section \<open>Aggregation: the tag rollup\<close>

record tagstat =
  tag :: string
  solved :: nat
  solvedContest :: nat
  solvedPractice :: nat
  totalAvailable :: nat
  maxSolved :: "int option"
  solvePercent :: real
  nextTargetDifficulty :: "int option"
  recommendScore :: real
  minFailedDifficulty :: "int option"
  maxFailedDifficulty :: "int option"
  failSpan :: "int option"

text \<open>
  The statistics built by \<^verbatim>\<open>aggregate\<close> carry the set \<^verbatim>\<open>solvedDiffs\<close> as well;
  the ones rebuilt from a snapshot do not have that field.
\<close>

record tagstat_live = tagstat +
  solvedDiffs :: "int jset"

definition new_stat :: "string \<Rightarrow> tagstat_live" where
  "new_stat t =
     \<lparr> tag = t, solved = 0, solvedContest = 0, solvedPractice = 0, totalAvailable = 0,
       maxSolved = None, solvePercent = 0, nextTargetDifficulty = None, recommendScore = 0,
       minFailedDifficulty = None, maxFailedDifficulty = None, failSpan = None,
       solvedDiffs = [] \<rparr>"

text \<open>Truthiness of a rating: null and 0 are falsy.\<close>

fun truthy_rating :: "int option \<Rightarrow> bool" where
  "truthy_rating None = False"
| "truthy_rating (Some r) = (r \<noteq> 0)"

text \<open>\<^verbatim>\<open>status?.solved\<close>, \<^verbatim>\<open>status?.failedContest\<close>, \<^verbatim>\<open>origin?.contest\<close>,
  \<^verbatim>\<open>origin?.practice\<close> read as conditions: undefined is falsy.\<close>

definition opt_solved :: "status option \<Rightarrow> bool" where
  "opt_solved s = (case s of None \<Rightarrow> False | Some x \<Rightarrow> status_solved x)"

definition opt_failedContest :: "status option \<Rightarrow> bool" where
  "opt_failedContest s = (case s of None \<Rightarrow> False | Some x \<Rightarrow> status_failedContest x)"

definition opt_failedPractice :: "status option \<Rightarrow> bool" where
  "opt_failedPractice s = (case s of None \<Rightarrow> False | Some x \<Rightarrow> status_failedPractice x)"

definition opt_contest :: "origin option \<Rightarrow> bool" where
  "opt_contest og = (case og of None \<Rightarrow> False | Some x \<Rightarrow> origin_contest x)"

definition opt_practice :: "origin option \<Rightarrow> bool" where
  "opt_practice og = (case og of None \<Rightarrow> False | Some x \<Rightarrow> origin_practice x)"

record rollup =
  ru_tagStats :: "(string, tagstat_live) jmap"
  ru_tagRatingsAll :: "(string, int jset) jmap"
  ru_perTagProblemList :: "(string, string jset) jmap"

text \<open>The updates of one solved problem to the statistics of one of its tags.\<close>

definition solved_update :: "int option \<Rightarrow> origin option \<Rightarrow> tagstat_live \<Rightarrow> tagstat_live" where
  "solved_update rating og stat =
     (let s1 = stat\<lparr>solved := solved stat + 1\<rparr>;
          s2 = (if opt_contest og then s1\<lparr>solvedContest := solvedContest s1 + 1\<rparr>
                else if opt_practice og then s1\<lparr>solvedPractice := solvedPractice s1 + 1\<rparr>
                else s1)
      in if truthy_rating rating then
           s2\<lparr>solvedDiffs := jset_add (solvedDiffs s2) (the rating),
               maxSolved := (if maxSolved s2 = None \<or> the rating > the (maxSolved s2)
                             then rating else maxSolved s2)\<rparr>
         else s2)"

text \<open>The body of the loop over the tags of one problem.\<close>

definition tag_step ::
  "string \<Rightarrow> int option \<Rightarrow> status option \<Rightarrow> origin option \<Rightarrow> string \<Rightarrow> rollup \<Rightarrow> rollup" where
  "tag_step key rating st og t ru =
     (let stat0 = (case jmap_get (ru_tagStats ru) t of None \<Rightarrow> new_stat t | Some s \<Rightarrow> s);
          stat1 = stat0\<lparr>totalAvailable := totalAvailable stat0 + 1\<rparr>;
          keys = (case jmap_get (ru_perTagProblemList ru) t of None \<Rightarrow> [] | Some ks \<Rightarrow> ks);
          ptl = jmap_set (ru_perTagProblemList ru) t (jset_add keys key);
          tra = (if truthy_rating rating then
                   jmap_set (ru_tagRatingsAll ru) t
                     (jset_add (case jmap_get (ru_tagRatingsAll ru) t of None \<Rightarrow> [] | Some rs \<Rightarrow> rs)
                        (the rating))
                 else ru_tagRatingsAll ru);
          stat2 = (if opt_solved st then solved_update rating og stat1 else stat1)
      in \<lparr> ru_tagStats = jmap_set (ru_tagStats ru) t stat2,
           ru_tagRatingsAll = tra,
           ru_perTagProblemList = ptl \<rparr>)"

text \<open>The body of the loop over the entries of \<^verbatim>\<open>perProblemMeta\<close>.\<close>

definition problem_step :: "classifier \<Rightarrow> string \<times> meta \<Rightarrow> rollup \<Rightarrow> rollup" where
  "problem_step cl km ru =
     (let key = fst km; m = snd km;
          st = jmap_get (cl_perProblemStatus cl) key;
          og = jmap_get (cl_perProblemOrigin cl) key
      in fold (tag_step key (meta_rating m) st og) (meta_tags m) ru)"

definition build_rollup :: "classifier \<Rightarrow> (string, meta) jmap \<Rightarrow> rollup" where
  "build_rollup cl pm =
     fold (problem_step cl) pm
       \<lparr> ru_tagStats = [], ru_tagRatingsAll = [], ru_perTagProblemList = [] \<rparr>"

text \<open>
  The pass over \<^verbatim>\<open>tagStats.values()\<close>: the coverage, and the first rating above
  \<^verbatim>\<open>maxSolved\<close> in the tag's ratings sorted in ascending order.
\<close>

definition post_pass :: "(string, int jset) jmap \<Rightarrow> tagstat_live \<Rightarrow> tagstat_live" where
  "post_pass tra stat =
     (let s1 = stat\<lparr>solvePercent :=
                 (if totalAvailable stat \<noteq> 0
                  then real (solved stat) / real (totalAvailable stat) else 0)\<rparr>
      in case maxSolved s1 of
           None \<Rightarrow> s1
         | Some m \<Rightarrow>
             (case jmap_get tra (tag s1) of
                None \<Rightarrow> s1
              | Some allR \<Rightarrow>
                  (case find (\<lambda>r. r > m) (sort allR) of
                     None \<Rightarrow> s1
                   | Some r \<Rightarrow> s1\<lparr>nextTargetDifficulty := Some r\<rparr>)))"

record 's agg =
  tagArray :: "'s list"
  perTagProblemList :: "(string, string jset) jmap"
  perProblemMeta :: "(string, meta) jmap"
  solvedProblems :: "string jset"
  perProblemOrigin :: "(string, origin) jmap"
  tagRatingsAll :: "(string, int jset) jmap"
  perProblemStatus :: "(string, status) jmap"

text \<open>
  \<^verbatim>\<open>aggregate\<close>. The final sort by \<^verbatim>\<open>b.solved - a.solved\<close> is stable, as
  \<^const>\<open>sort_key\<close> is.
\<close>

definition aggregate :: "submission list \<Rightarrow> problemset \<Rightarrow> tagstat_live agg" where
  "aggregate submissions ps =
     (let ix = build_index ps;
          cl = classify (ix_probIndex ix) submissions;
          ru = build_rollup cl (ix_perProblemMeta ix);
          stats = map (post_pass (ru_tagRatingsAll ru)) (map snd (ru_tagStats ru))
      in \<lparr> tagArray = sort_key (\<lambda>s. - int (solved s)) stats,
           perTagProblemList = ru_perTagProblemList ru,
           perProblemMeta = ix_perProblemMeta ix,
           solvedProblems = cl_solvedProblems cl,
           perProblemOrigin = cl_perProblemOrigin cl,
           tagRatingsAll = ru_tagRatingsAll ru,
           perProblemStatus = cl_perProblemStatus cl \<rparr>)"

section \<open>The recommendation score\<close>

text \<open>
  \<^verbatim>\<open>computeRecommendationScores\<close>, with the double-precision arithmetic of the source
  read over the reals. \<^verbatim>\<open>Math.max(...xs, 1)\<close> is the largest of the \<open>xs\<close> and 1.
\<close>

definition recommend_score :: "real \<Rightarrow> real \<Rightarrow> tagstat_live \<Rightarrow> real" where
  "recommend_score maxSolvedAll maxMaxDiff t =
     (let coverageGap = 1 - solvePercent t;
          maxS = (case maxSolved t of None \<Rightarrow> 0 | Some m \<Rightarrow> real_of_int m);
          diffDelta = (case nextTargetDifficulty t of
                         None \<Rightarrow> 500
                       | Some n \<Rightarrow> real_of_int n - maxS);
          normNext = 1 / (1 + diffDelta / 300);
          normSolved = real (solved t) / maxSolvedAll;
          normMax = maxS / maxMaxDiff
      in 0.55 * coverageGap + 0.30 * normNext + 0.15 * (0.5 * normSolved + 0.5 * normMax))"

definition computeRecommendationScores ::
  "tagstat_live list \<Rightarrow> (string, int jset) jmap \<Rightarrow> tagstat_live list" where
  "computeRecommendationScores tags tra =
     (if length tags = 0 then tags
      else
        let maxSolvedAll = fold max (map (\<lambda>t. real (solved t)) tags) 1;
            maxMaxDiff = fold max
              (map (\<lambda>t. case maxSolved t of None \<Rightarrow> 0 | Some m \<Rightarrow> real_of_int m) tags) 1
        in map (\<lambda>t. t\<lparr>recommendScore := recommend_score maxSolvedAll maxMaxDiff t\<rparr>) tags)"

section \<open>The fail band\<close>

text \<open>The body of the loop over the keys of one tag; the pair is \<^verbatim>\<open>(minFail, maxFail)\<close>.\<close>

definition failband_step ::
  "(string, meta) jmap \<Rightarrow> (string, status) jmap \<Rightarrow> string \<Rightarrow>
     int option \<times> int option \<Rightarrow> int option \<times> int option" where
  "failband_step pm sm key mm =
     (case jmap_get pm key of
        None \<Rightarrow> mm
      | Some m \<Rightarrow>
          (case jmap_get sm key of
             None \<Rightarrow> mm
           | Some st \<Rightarrow>
               if \<not> status_solved st \<and> status_failedContest st \<and> truthy_rating (meta_rating m)
               then
                 (let r = the (meta_rating m);
                      minFail = (if fst mm = None \<or> r < the (fst mm) then Some r else fst mm);
                      maxFail = (if snd mm = None \<or> r > the (snd mm) then Some r else snd mm)
                  in (minFail, maxFail))
               else mm))"

definition failband_stat :: "tagstat_live agg \<Rightarrow> tagstat_live \<Rightarrow> tagstat_live" where
  "failband_stat ag stat =
     (case jmap_get (perTagProblemList ag) (tag stat) of
        None \<Rightarrow> stat
      | Some keys \<Rightarrow>
          let mm = fold (failband_step (perProblemMeta ag) (perProblemStatus ag)) keys (None, None)
          in stat\<lparr>minFailedDifficulty := fst mm,
                  maxFailedDifficulty := snd mm,
                  failSpan := (if fst mm \<noteq> None \<and> snd mm \<noteq> None
                               then Some (the (snd mm) - the (fst mm)) else None)\<rparr>)"

definition computeFailedDifficultyBand :: "tagstat_live agg \<Rightarrow> tagstat_live agg" where
  "computeFailedDifficultyBand ag = ag\<lparr>tagArray := map (failband_stat ag) (tagArray ag)\<rparr>"

section \<open>Difficulty buckets\<close>

record bucket =
  b_solvedContest :: nat
  b_solvedPractice :: nat
  b_failedContest :: nat
  b_unsolved :: nat
  b_total :: nat

definition new_bucket :: bucket where
  "new_bucket = \<lparr> b_solvedContest = 0, b_solvedPractice = 0, b_failedContest = 0,
                   b_unsolved = 0, b_total = 0 \<rparr>"

text \<open>\<^verbatim>\<open>meta.rating || 0\<close>.\<close>

definition rating_or_zero :: "int option \<Rightarrow> int" where
  "rating_or_zero r = (if truthy_rating r then the r else 0)"

text \<open>The body of the loop over the keys of one tag in \<^verbatim>\<open>buildAllTagDifficultyBuckets\<close>.\<close>

definition bucket_step ::
  "(string, meta) jmap \<Rightarrow> (string, origin) jmap \<Rightarrow> (string, status) jmap \<Rightarrow> string \<Rightarrow>
     (int, bucket) jmap \<Rightarrow> (int, bucket) jmap" where
  "bucket_step pm om sm key diffMap =
     (case jmap_get pm key of
        None \<Rightarrow> diffMap
      | Some m \<Rightarrow>
          let rating = rating_or_zero (meta_rating m);
              b0 = (case jmap_get diffMap rating of None \<Rightarrow> new_bucket | Some b \<Rightarrow> b);
              b1 = b0\<lparr>b_total := b_total b0 + 1\<rparr>;
              st = jmap_get sm key;
              og = jmap_get om key;
              b2 = (if opt_solved st then
                      (if opt_contest og then b1\<lparr>b_solvedContest := b_solvedContest b1 + 1\<rparr>
                       else b1\<lparr>b_solvedPractice := b_solvedPractice b1 + 1\<rparr>)
                    else
                      (if opt_failedContest st then b1\<lparr>b_failedContest := b_failedContest b1 + 1\<rparr>
                       else b1\<lparr>b_unsolved := b_unsolved b1 + 1\<rparr>))
          in jmap_set diffMap rating b2)"

definition tag_buckets_step ::
  "('s, 'a) agg_scheme \<Rightarrow> string \<Rightarrow> (string, (int, bucket) jmap) jmap \<Rightarrow>
     (string, (int, bucket) jmap) jmap" where
  "tag_buckets_step ag t mp =
     (case jmap_get (perTagProblemList ag) t of
        None \<Rightarrow> mp
      | Some keys \<Rightarrow>
          jmap_set mp t
            (fold (bucket_step (perProblemMeta ag) (perProblemOrigin ag) (perProblemStatus ag))
               keys []))"

definition buildAllTagDifficultyBuckets ::
  "tagstat_live agg \<Rightarrow> (string, (int, bucket) jmap) jmap" where
  "buildAllTagDifficultyBuckets ag = fold (\<lambda>stat. tag_buckets_step ag (tag stat)) (tagArray ag) []"

section \<open>The intersection engine\<close>

text \<open>
  The loop over the tags of \<^verbatim>\<open>buildIntersectionBuckets\<close>; the accumulator is
  \<^verbatim>\<open>inter\<close>, \<open>None\<close> its initial \<^verbatim>\<open>null\<close>, and returning without a recursive call is its
  \<^verbatim>\<open>break\<close>.
\<close>

fun intersect_loop ::
  "(string, string jset) jmap \<Rightarrow> string list \<Rightarrow> string jset option \<Rightarrow> string jset option" where
  "intersect_loop ptl [] cur = cur"
| "intersect_loop ptl (t # ts) cur =
     (case jmap_get ptl t of
        None \<Rightarrow> Some []
      | Some keys \<Rightarrow>
          let nxt = (case cur of
                       None \<Rightarrow> keys
                     | Some c \<Rightarrow> filter (\<lambda>val. jset_has keys val) c)
          in if length nxt = 0 then Some nxt else intersect_loop ptl ts (Some nxt))"

text \<open>The body of the loop over the intersection (the source repeats the bucket rule).\<close>

definition inter_bucket_step ::
  "(string, meta) jmap \<Rightarrow> (string, origin) jmap \<Rightarrow> (string, status) jmap \<Rightarrow> string \<Rightarrow>
     (int, bucket) jmap \<Rightarrow> (int, bucket) jmap" where
  "inter_bucket_step pm om sm key diffMap =
     (case jmap_get pm key of
        None \<Rightarrow> diffMap
      | Some m \<Rightarrow>
          let rating = rating_or_zero (meta_rating m);
              b0 = (case jmap_get diffMap rating of None \<Rightarrow> new_bucket | Some b \<Rightarrow> b);
              b1 = b0\<lparr>b_total := b_total b0 + 1\<rparr>;
              st = jmap_get sm key;
              og = jmap_get om key;
              b2 = (if opt_solved st then
                      (if opt_contest og then b1\<lparr>b_solvedContest := b_solvedContest b1 + 1\<rparr>
                       else b1\<lparr>b_solvedPractice := b_solvedPractice b1 + 1\<rparr>)
                    else
                      (if opt_failedContest st then b1\<lparr>b_failedContest := b_failedContest b1 + 1\<rparr>
                       else b1\<lparr>b_unsolved := b_unsolved b1 + 1\<rparr>))
          in jmap_set diffMap rating b2)"

definition buildIntersectionBuckets ::
  "string list \<Rightarrow> ('s, 'a) agg_scheme \<Rightarrow> (int, bucket) jmap" where
  "buildIntersectionBuckets tags ag =
     (case intersect_loop (perTagProblemList ag) tags None of
        None \<Rightarrow> []
      | Some keys \<Rightarrow>
          if length keys = 0 then []
          else fold (inter_bucket_step (perProblemMeta ag) (perProblemOrigin ag) (perProblemStatus ag))
                 keys [])"

text \<open>
  The aggregate as \<^verbatim>\<open>fetchAndBuildSnapshot\<close> completes it before it is serialised:
  \<^verbatim>\<open>aggregate\<close>, then the recommendation scores, then the fail band.
\<close>

definition fresh_agg :: "submission list \<Rightarrow> problemset \<Rightarrow> tagstat_live agg" where
  "fresh_agg submissions ps =
     (let ag = aggregate submissions ps;
          ag1 = ag\<lparr>tagArray := computeRecommendationScores (tagArray ag) (tagRatingsAll ag)\<rparr>
      in computeFailedDifficultyBand ag1)"

section \<open>Plain objects\<close>

text \<open>
  A plain JavaScript object used as a dictionary is the list of its own enumerable string
  properties in the order \<^verbatim>\<open>Object.entries\<close> lists them: the keys that are array
  indices (canonical decimal numerals below 4294967295, that is \<open>2\<^sup>3\<^sup>2 - 1\<close>) in ascending numeric order,
  then the other keys in the order they were created. Assigning to an existing key keeps
  its place. Assigning an object to the key \<^verbatim>\<open>__proto__\<close> goes to the accessor
  inherited from \<^verbatim>\<open>Object.prototype\<close>: it replaces the prototype and creates no own
  property.
\<close>

type_synonym 'v jobj = "(string \<times> 'v) list"

definition is_digit :: "char \<Rightarrow> bool" where
  "is_digit c = (48 \<le> (of_char c :: int) \<and> (of_char c :: int) \<le> 57)"

definition digit_val :: "char \<Rightarrow> int" where
  "digit_val c = of_char c - 48"

fun digits_value :: "int \<Rightarrow> string \<Rightarrow> int" where
  "digits_value acc [] = acc"
| "digits_value acc (c # cs) = digits_value (acc * 10 + digit_val c) cs"

definition is_array_index :: "string \<Rightarrow> bool" where
  "is_array_index s =
     (s \<noteq> [] \<and> list_all is_digit s \<and> (hd s \<noteq> CHR ''0'' \<or> length s = 1) \<and>
      digits_value 0 s < 4294967295)"

fun insert_index :: "int \<Rightarrow> string \<Rightarrow> 'v \<Rightarrow> 'v jobj \<Rightarrow> 'v jobj" where
  "insert_index n k v [] = [(k, v)]"
| "insert_index n k v ((k', v') # m) =
     (if is_array_index k' \<and> digits_value 0 k' < n then (k', v') # insert_index n k v m
      else (k, v) # (k', v') # m)"

definition jobj_set :: "'v jobj \<Rightarrow> string \<Rightarrow> 'v \<Rightarrow> 'v jobj" where
  "jobj_set obj k v =
     (if k = ''__proto__'' then obj
      else if map_of obj k \<noteq> None then jmap_set obj k v
      else if is_array_index k then insert_index (digits_value 0 k) k v obj
      else obj @ [(k, v)])"

text \<open>
  \<^verbatim>\<open>parseInt(s, 10)\<close>: leading white space, an optional sign, then the longest run
  of decimal digits; \<open>None\<close> is \<^verbatim>\<open>NaN\<close>.
\<close>

definition is_space :: "char \<Rightarrow> bool" where
  "is_space c = ((of_char c :: int) \<in> {9, 10, 11, 12, 13, 32})"

definition parseInt10 :: "string \<Rightarrow> int option" where
  "parseInt10 s =
     (let t = dropWhile is_space s;
          neg = (t \<noteq> [] \<and> hd t = CHR ''-'');
          u = (if t \<noteq> [] \<and> (hd t = CHR ''-'' \<or> hd t = CHR ''+'') then tl t else t);
          ds = takeWhile is_digit u
      in if ds = [] then None
         else Some (if neg then - digits_value 0 ds else digits_value 0 ds))"

section \<open>The snapshot\<close>

record snap_problem =
  sp_rating :: "int option"
  sp_name :: string
  sp_tags :: "string list"
  sp_solved :: bool
  sp_contest :: bool
  sp_practice :: bool
  sp_failedContest :: bool
  sp_failedPractice :: bool

record snap_tag =
  sg_totalAvailable :: nat
  sg_solved :: nat
  sg_solvedContest :: nat
  sg_solvedPractice :: nat
  sg_solvePercent :: real
  sg_maxSolved :: "int option"
  sg_nextTargetDifficulty :: "int option"
  sg_minFailedDifficulty :: "int option"
  sg_maxFailedDifficulty :: "int option"
  sg_failSpan :: "int option"
  sg_recommendScore :: real
  sg_difficultyBuckets :: "bucket jobj"

record snapshot =
  schemaVersion :: nat
  generatedAt :: string
  handle :: string
  source_userStatusCount :: nat
  source_problemsetCount :: nat
  snap_problems :: "snap_problem jobj"
  snap_tags :: "snap_tag jobj"
  tagProblemKeys :: "string list jobj option"
  intermediate_cacheTTLHours :: nat

definition CACHE_TTL_HOURS :: nat where
  "CACHE_TTL_HOURS = 6"

definition SNAPSHOT_SCHEMA_VERSION :: nat where
  "SNAPSHOT_SCHEMA_VERSION = 2"

text \<open>The entry of \<^verbatim>\<open>problems\<close> for one entry of \<^verbatim>\<open>perProblemMeta\<close>.\<close>

definition problem_entry :: "(string, origin) jmap \<Rightarrow> (string, status) jmap \<Rightarrow> string \<Rightarrow> meta \<Rightarrow> snap_problem" where
  "problem_entry om sm key m =
     (let st = jmap_get sm key; og = jmap_get om key
      in \<lparr> sp_rating = meta_rating m,
           sp_name = meta_name m,
           sp_tags = meta_tags m,
           sp_solved = opt_solved st,
           sp_contest = (opt_contest og \<and> opt_solved st),
           sp_practice = (opt_practice og \<and> opt_solved st),
           sp_failedContest = (opt_failedContest st \<and> \<not> opt_solved st),
           sp_failedPractice = (opt_failedPractice st \<and> \<not> opt_solved st) \<rparr>)"

definition copy_bucket :: "bucket \<Rightarrow> bucket" where
  "copy_bucket b =
     \<lparr> b_solvedContest = b_solvedContest b, b_solvedPractice = b_solvedPractice b,
       b_failedContest = b_failedContest b, b_unsolved = b_unsolved b, b_total = b_total b \<rparr>"

definition bucket_object :: "(int, bucket) jmap \<Rightarrow> bucket jobj" where
  "bucket_object diffBuckets =
     fold (\<lambda>db obj. jobj_set obj (show_int (fst db)) (copy_bucket (snd db))) diffBuckets []"

text \<open>The entry of \<^verbatim>\<open>tags\<close> for one statistic of \<^verbatim>\<open>tagArray\<close>.\<close>

definition tag_entry :: "(string, (int, bucket) jmap) jmap \<Rightarrow> tagstat_live \<Rightarrow> snap_tag" where
  "tag_entry tdb stat =
     (let diffBuckets = (case jmap_get tdb (tag stat) of None \<Rightarrow> [] | Some dm \<Rightarrow> dm)
      in \<lparr> sg_totalAvailable = totalAvailable stat,
           sg_solved = solved stat,
           sg_solvedContest = solvedContest stat,
           sg_solvedPractice = solvedPractice stat,
           sg_solvePercent = solvePercent stat,
           sg_maxSolved = maxSolved stat,
           sg_nextTargetDifficulty = nextTargetDifficulty stat,
           sg_minFailedDifficulty = minFailedDifficulty stat,
           sg_maxFailedDifficulty = maxFailedDifficulty stat,
           sg_failSpan = failSpan stat,
           sg_recommendScore = recommendScore stat,
           sg_difficultyBuckets = bucket_object diffBuckets \<rparr>)"

text \<open>
  \<^verbatim>\<open>buildSnapshot\<close>; \<open>now\<close> is the \<^verbatim>\<open>new Date().toISOString()\<close> of the call.
\<close>

definition buildSnapshot ::
  "string \<Rightarrow> string \<Rightarrow> submission list \<Rightarrow> problemset \<Rightarrow> tagstat_live agg \<Rightarrow>
     (string, (int, bucket) jmap) jmap \<Rightarrow> snapshot" where
  "buildSnapshot hdl now submissions ps ag tagDifficultyBuckets =
     \<lparr> schemaVersion = SNAPSHOT_SCHEMA_VERSION,
       generatedAt = now,
       handle = hdl,
       source_userStatusCount = length submissions,
       source_problemsetCount = length (problems ps),
       snap_problems =
         fold (\<lambda>km obj. jobj_set obj (fst km)
                 (problem_entry (perProblemOrigin ag) (perProblemStatus ag) (fst km) (snd km)))
           (perProblemMeta ag) [],
       snap_tags =
         fold (\<lambda>stat obj. jobj_set obj (tag stat) (tag_entry tagDifficultyBuckets stat))
           (tagArray ag) [],
       tagProblemKeys = None,
       intermediate_cacheTTLHours = CACHE_TTL_HOURS \<rparr>"

text \<open>The snapshot that \<^verbatim>\<open>fetchAndBuildSnapshot\<close> returns for fetched data.\<close>

definition build_fresh_snapshot :: "string \<Rightarrow> string \<Rightarrow> submission list \<Rightarrow> problemset \<Rightarrow> snapshot" where
  "build_fresh_snapshot hdl now submissions ps =
     (let ag = fresh_agg submissions ps;
          tagDifficultyBuckets = buildAllTagDifficultyBuckets ag;
          snap = buildSnapshot hdl now submissions ps ag tagDifficultyBuckets
      in snap\<lparr>tagProblemKeys :=
                 Some (fold (\<lambda>tk obj. jobj_set obj (fst tk) (snd tk)) (perTagProblemList ag) [])\<rparr>)"

section \<open>Rehydration\<close>

definition rehydrate_problem :: "string \<times> snap_problem \<Rightarrow> tagstat agg \<Rightarrow> tagstat agg" where
  "rehydrate_problem kp ag =
     (let key = fst kp; p = snd kp
      in ag\<lparr>perProblemMeta := jmap_set (perProblemMeta ag) key
                 \<lparr> meta_tags = sp_tags p, meta_rating = sp_rating p, meta_name = sp_name p \<rparr>,
             solvedProblems := (if sp_solved p then jset_add (solvedProblems ag) key
                                else solvedProblems ag),
             perProblemOrigin := jmap_set (perProblemOrigin ag) key
                 \<lparr> origin_contest = sp_contest p, origin_practice = sp_practice p \<rparr>,
             perProblemStatus := jmap_set (perProblemStatus ag) key
                 \<lparr> status_solved = sp_solved p, status_failedContest = sp_failedContest p,
                   status_failedPractice = sp_failedPractice p \<rparr>\<rparr>)"

definition rehydrate_tag :: "string \<times> snap_tag \<Rightarrow> tagstat" where
  "rehydrate_tag te =
     \<lparr> tag = fst te,
       solved = sg_solved (snd te),
       solvedContest = sg_solvedContest (snd te),
       solvedPractice = sg_solvedPractice (snd te),
       totalAvailable = sg_totalAvailable (snd te),
       maxSolved = sg_maxSolved (snd te),
       solvePercent = sg_solvePercent (snd te),
       nextTargetDifficulty = sg_nextTargetDifficulty (snd te),
       recommendScore = sg_recommendScore (snd te),
       minFailedDifficulty = sg_minFailedDifficulty (snd te),
       maxFailedDifficulty = sg_maxFailedDifficulty (snd te),
       failSpan = sg_failSpan (snd te) \<rparr>"

text \<open>The aggregate that \<^verbatim>\<open>renderFromSnapshot\<close> hands to the views.\<close>

definition rehydrate :: "snapshot \<Rightarrow> tagstat agg" where
  "rehydrate snap =
     (let ag0 = \<lparr> tagArray = [], perTagProblemList = [], perProblemMeta = [],
                  solvedProblems = [], perProblemOrigin = [], tagRatingsAll = [],
                  perProblemStatus = [] \<rparr>;
          ag1 = fold rehydrate_problem (snap_problems snap) ag0;
          ag2 = ag1\<lparr>tagArray := map rehydrate_tag (snap_tags snap)\<rparr>
      in case tagProblemKeys snap of
           None \<Rightarrow> ag2
         | Some tpk \<Rightarrow>
             ag2\<lparr>perTagProblemList :=
                   fold (\<lambda>ta m. jmap_set m (fst ta) (jset_of_list (snd ta))) tpk []\<rparr>)"

text \<open>\<^verbatim>\<open>rebuildDiffMapFromSnapshot\<close>; the key \<open>None\<close> is \<^verbatim>\<open>NaN\<close>.\<close>

definition rebuildDiffMapFromSnapshot :: "bucket jobj \<Rightarrow> (int option, bucket) jmap" where
  "rebuildDiffMapFromSnapshot bucketsObj =
     fold (\<lambda>db m. jmap_set m (if fst db = ''0'' then Some 0 else parseInt10 (fst db))
                     (copy_bucket (snd db)))
       bucketsObj []"

section \<open>Notions used to state the properties\<close>

definition sub_key :: "(string, bool) jmap \<Rightarrow> submission \<Rightarrow> string option" where
  "sub_key probIndex sub =
     (case sub_problem sub of
        None \<Rightarrow> None
      | Some pr \<Rightarrow> if jmap_has probIndex (probKey (Some pr)) then Some (probKey (Some pr)) else None)"

definition status_update :: "submission \<Rightarrow> status \<Rightarrow> status" where
  "status_update sub s =
     (if sub_verdict sub = ''OK'' then s\<lparr>status_solved := True\<rparr>
      else if \<not> status_solved s \<and> sub_verdict sub \<in> set contestFailVerdicts then
        (if truthy_num (sub_contestId sub) then s\<lparr>status_failedContest := True\<rparr>
         else s\<lparr>status_failedPractice := True\<rparr>)
      else s)"

definition origin_update :: "submission \<Rightarrow> origin \<Rightarrow> origin" where
  "origin_update sub og =
     (if sub_verdict sub = ''OK'' then
        (if truthy_num (sub_contestId sub) then og\<lparr>origin_contest := True\<rparr>
         else og\<lparr>origin_practice := True\<rparr>)
      else og)"

definition ex_problem :: problem where
  "ex_problem = \<lparr> p_contestId = None, p_problemsetName = Some ''A'', p_index = ''1'',
                   p_tags = Some [''dp''], p_rating = Some 1500, p_name = None \<rparr>"

definition ex_catalog :: problemset where
  "ex_catalog = \<lparr> problems = [ex_problem] \<rparr>"

definition ex_sub :: "string \<Rightarrow> int option \<Rightarrow> submission" where
  "ex_sub v c = \<lparr> sub_problem = Some ex_problem, sub_verdict = v, sub_contestId = c \<rparr>"

definition ex_accepted :: submission where
  "ex_accepted = ex_sub ''OK'' (Some 1)"

definition ex_wrong_answer :: submission where
  "ex_wrong_answer = ex_sub ''WRONG_ANSWER'' (Some 1)"

definition spec_failure_verdicts :: "string list" where
  "spec_failure_verdicts =
     [''WRONG_ANSWER'', ''TIME_LIMIT_EXCEEDED'', ''MEMORY_LIMIT_EXCEEDED'',
      ''IDLENESS_LIMIT_EXCEEDED'', ''REJECTED'', ''FAILED'', ''PRESENTATION_ERROR'', ''CHALLENGED'',
      ''PARTIAL'', ''COMPILATION_ERROR'', ''CRASHED'', ''SKIPPED'']"

definition ex_runtime_error :: submission where
  "ex_runtime_error = ex_sub ''RUNTIME_ERROR'' (Some 1)"

text \<open>What one (problem, tag) pair does to the statistics of the tag.\<close>

definition stat_update :: "int option \<Rightarrow> status option \<Rightarrow> origin option \<Rightarrow> tagstat_live \<Rightarrow> tagstat_live" where
  "stat_update rating st og s =
     (if opt_solved st then solved_update rating og (s\<lparr>totalAvailable := totalAvailable s + 1\<rparr>)
      else s\<lparr>totalAvailable := totalAvailable s + 1\<rparr>)"

text \<open>
  The ratings of the rated problems of the catalog that carry the tag \<open>t\<close>, and the
  smallest of a list of ratings that is strictly greater than \<open>m\<close>, if there is one.
\<close>

definition rated_ratings :: "(string, meta) jmap \<Rightarrow> string \<Rightarrow> int list" where
  "rated_ratings pm t =
     map (\<lambda>km. the (meta_rating (snd km)))
       (filter (\<lambda>km. t \<in> set (meta_tags (snd km)) \<and> truthy_rating (meta_rating (snd km))) pm)"

definition next_above :: "int \<Rightarrow> int list \<Rightarrow> int option" where
  "next_above m rs =
     (if filter (\<lambda>r. m < r) rs = [] then None else Some (Min (set (filter (\<lambda>r. m < r) rs))))"

definition ratings_view :: "(string, int jset) jmap \<Rightarrow> string \<Rightarrow> int set" where
  "ratings_view tra t = (case jmap_get tra t of None \<Rightarrow> {} | Some rs \<Rightarrow> set rs)"

text \<open>A catalog of three problems tagged \<open>dp\<close>, rated 1500, 1900 and 1700.\<close>

definition ex_problem_rated :: "string \<Rightarrow> int \<Rightarrow> problem" where
  "ex_problem_rated ix r = \<lparr> p_contestId = None, p_problemsetName = Some ''A'', p_index = ix,
                   p_tags = Some [''dp''], p_rating = Some r, p_name = None \<rparr>"

definition ex_catalog2 :: problemset where
  "ex_catalog2 = \<lparr> problems = [ex_problem, ex_problem_rated ''2'' 1900, ex_problem_rated ''3'' 1700] \<rparr>"

text \<open>The keys listed for a tag, and the \<open>totalAvailable\<close> counted for it (none: 0).\<close>

definition ptl_view :: "(string, string jset) jmap \<Rightarrow> string \<Rightarrow> string list" where
  "ptl_view ptl t = (case jmap_get ptl t of None \<Rightarrow> [] | Some ks \<Rightarrow> ks)"

definition total_view :: "(string, tagstat_live) jmap \<Rightarrow> string \<Rightarrow> nat" where
  "total_view stats t = (case jmap_get stats t of None \<Rightarrow> 0 | Some s \<Rightarrow> totalAvailable s)"

text \<open>The keys of the catalog problems that carry the tag \<open>t\<close>, in catalog order.\<close>

definition tagged_keys :: "(string, meta) jmap \<Rightarrow> string \<Rightarrow> string list" where
  "tagged_keys pm t = map fst (filter (\<lambda>km. t \<in> set (meta_tags (snd km))) pm)"

definition bucket_sum :: "(int, bucket) jmap \<Rightarrow> nat" where
  "bucket_sum diffMap = sum_list (map (\<lambda>rb. b_total (snd rb)) diffMap)"

definition bucket_balanced :: "bucket \<Rightarrow> bool" where
  "bucket_balanced b =
     (b_total b = b_solvedContest b + b_solvedPractice b + b_failedContest b + b_unsolved b)"

text \<open>A catalog whose only problem lists the tag \<open>dp\<close> twice.\<close>

definition ex_catalog_dup :: problemset where
  "ex_catalog_dup = \<lparr> problems = [ex_problem\<lparr>p_tags := Some [''dp'', ''dp'']\<rparr>] \<rparr>"

text \<open>The \<open>maxSolved\<close> recorded for a tag (none: null).\<close>

definition maxSolved_view :: "(string, tagstat_live) jmap \<Rightarrow> string \<Rightarrow> int option" where
  "maxSolved_view stats t = (case jmap_get stats t of None \<Rightarrow> None | Some s \<Rightarrow> maxSolved s)"

text \<open>
  The keys of the first listed tag that belong to the key set of every listed tag: the
  intersection of the key sets, in the order of the first one.
\<close>

definition common_keys :: "(string, string jset) jmap \<Rightarrow> string list \<Rightarrow> string list" where
  "common_keys ptl tags =
     filter (\<lambda>k. list_all (\<lambda>t. jset_has (ptl_view ptl t) k) tags) (ptl_view ptl (hd tags))"

definition keys_of :: "string jset option \<Rightarrow> string list" where
  "keys_of r = (case r of None \<Rightarrow> [] | Some ks \<Rightarrow> ks)"

text \<open>A catalog problem with the rating 0.\<close>

definition ex_problem_zero :: problem where
  "ex_problem_zero = ex_problem\<lparr>p_rating := Some 0\<rparr>"

text \<open>An aggregate with two tags over three problems, for the intersection.\<close>

definition ex_problem_tagged :: "string \<Rightarrow> string list \<Rightarrow> problem" where
  "ex_problem_tagged ix ts = \<lparr> p_contestId = None, p_problemsetName = Some ''A'', p_index = ix,
                   p_tags = Some ts, p_rating = Some 1500, p_name = None \<rparr>"

definition ex_catalog3 :: problemset where
  "ex_catalog3 = \<lparr> problems = [ex_problem_tagged ''1'' [''dp'', ''greedy''],
                                ex_problem_tagged ''2'' [''dp''],
                                ex_problem_tagged ''3'' [''greedy'', ''dp'']] \<rparr>"

text \<open>The numeric fields of a tag statistic, and the statistic listed for a tag.\<close>

definition stat_numbers ::
  "'a tagstat_scheme \<Rightarrow>
     nat \<times> nat \<times> nat \<times> nat \<times> real \<times> int option \<times> int option \<times> int option \<times> int option \<times>
     int option \<times> real" where
  "stat_numbers s =
     (totalAvailable s, solved s, solvedContest s, solvedPractice s, solvePercent s, maxSolved s,
      nextTargetDifficulty s, minFailedDifficulty s, maxFailedDifficulty s, failSpan s,
      recommendScore s)"

definition stat_of :: "'a tagstat_scheme list \<Rightarrow> string \<Rightarrow> 'a tagstat_scheme option" where
  "stat_of stats t = find (\<lambda>s. tag s = t) stats"

text \<open>
  The difficulty buckets of a tag as the views read them from a snapshot:
  \<^verbatim>\<open>rebuildDiffMapFromSnapshot(snapshot.tags[tag].difficultyBuckets)\<close>, nothing when
  \<^verbatim>\<open>snapshot.tags\<close> has no such property.
\<close>

definition snapshot_buckets :: "snapshot \<Rightarrow> string \<Rightarrow> (int option, bucket) jmap option" where
  "snapshot_buckets snap t =
     (case map_of (snap_tags snap) t of
        None \<Rightarrow> None
      | Some e \<Rightarrow> Some (rebuildDiffMapFromSnapshot (sg_difficultyBuckets e)))"

text \<open>The difficulty buckets of a tag as \<^verbatim>\<open>buildSnapshot\<close> reads them from the live map.\<close>

definition live_buckets :: "(string, (int, bucket) jmap) jmap \<Rightarrow> string \<Rightarrow> (int, bucket) jmap" where
  "live_buckets tdb t = (case jmap_get tdb t of None \<Rightarrow> [] | Some dm \<Rightarrow> dm)"

text \<open>Serialising the fetched data and rehydrating the snapshot.\<close>

definition round_trip :: "string \<Rightarrow> string \<Rightarrow> submission list \<Rightarrow> problemset \<Rightarrow> tagstat agg" where
  "round_trip hdl now submissions ps = rehydrate (build_fresh_snapshot hdl now submissions ps)"

definition rebuild_key :: "string \<Rightarrow> int option" where
  "rebuild_key k = (if k = ''0'' then Some 0 else parseInt10 k)"

definition entry_status :: "snap_problem \<Rightarrow> status" where
  "entry_status p =
     \<lparr> status_solved = sp_solved p, status_failedContest = sp_failedContest p,
       status_failedPractice = sp_failedPractice p \<rparr>"

definition entry_origin :: "snap_problem \<Rightarrow> origin" where
  "entry_origin p = \<lparr> origin_contest = sp_contest p, origin_practice = sp_practice p \<rparr>"

text \<open>A catalog whose only problem carries the tag \<^verbatim>\<open>__proto__\<close>.\<close>

definition ex_catalog_proto :: problemset where
  "ex_catalog_proto = \<lparr> problems = [ex_problem\<lparr>p_tags := Some [''__proto__'']\<rparr>] \<rparr>"

section \<open>Lookup in maps and sets\<close>

lemma map_of_jmap_set: "map_of (jmap_set m k v) = (map_of m)(k \<mapsto> v)"
  by (induction m) (auto simp: fun_eq_iff)

lemma jmap_get_set: "jmap_get (jmap_set m k v) k' = (if k' = k then Some v else jmap_get m k')"
  by (simp add: jmap_get_def map_of_jmap_set)

lemma classify_step_status:
  "jmap_get (cl_perProblemStatus (classify_step ix sub st)) k =
     (if sub_key ix sub = Some k
      then Some (status_update sub (case jmap_get (cl_perProblemStatus st) k of
                                      None \<Rightarrow> new_status | Some s \<Rightarrow> s))
      else jmap_get (cl_perProblemStatus st) k)"
proof (cases "sub_problem sub")
  case None
  then show ?thesis by (simp add: classify_step_def sub_key_def)
next
  case (Some pr)
  show ?thesis
  proof (cases "jmap_has ix (probKey (Some pr))")
    case False
    with Some show ?thesis by (simp add: classify_step_def sub_key_def)
  next
    case True
    with Some show ?thesis
      by (simp add: classify_step_def sub_key_def status_update_def Let_def jmap_get_set)
  qed
qed

lemma classify_step_origin:
  "jmap_get (cl_perProblemOrigin (classify_step ix sub st)) k =
     (if sub_key ix sub = Some k
      then Some (origin_update sub (case jmap_get (cl_perProblemOrigin st) k of
                                      None \<Rightarrow> new_origin | Some og \<Rightarrow> og))
      else jmap_get (cl_perProblemOrigin st) k)"
proof (cases "sub_problem sub")
  case None
  then show ?thesis by (simp add: classify_step_def sub_key_def)
next
  case (Some pr)
  show ?thesis
  proof (cases "jmap_has ix (probKey (Some pr))")
    case False
    with Some show ?thesis by (simp add: classify_step_def sub_key_def)
  next
    case True
    with Some show ?thesis
      by (auto simp add: classify_step_def sub_key_def origin_update_def Let_def jmap_get_set
          split: option.splits)
  qed
qed

lemma step_solved:
  "opt_solved (jmap_get (cl_perProblemStatus (classify_step ix sub st)) k) =
     (opt_solved (jmap_get (cl_perProblemStatus st) k) \<or>
      (sub_key ix sub = Some k \<and> sub_verdict sub = ''OK''))"
  by (auto simp: classify_step_status opt_solved_def status_update_def new_status_def
           split: option.splits)

lemma step_present:
  "(jmap_get (cl_perProblemStatus (classify_step ix sub st)) k \<noteq> None) =
     (jmap_get (cl_perProblemStatus st) k \<noteq> None \<or> sub_key ix sub = Some k)"
  by (simp add: classify_step_status)

lemma step_contest:
  "opt_contest (jmap_get (cl_perProblemOrigin (classify_step ix sub st)) k) =
     (opt_contest (jmap_get (cl_perProblemOrigin st) k) \<or>
      (sub_key ix sub = Some k \<and> sub_verdict sub = ''OK'' \<and> truthy_num (sub_contestId sub)))"
  by (auto simp: classify_step_origin opt_contest_def origin_update_def new_origin_def
           split: option.splits)

lemma step_practice:
  "opt_practice (jmap_get (cl_perProblemOrigin (classify_step ix sub st)) k) =
     (opt_practice (jmap_get (cl_perProblemOrigin st) k) \<or>
      (sub_key ix sub = Some k \<and> sub_verdict sub = ''OK'' \<and> \<not> truthy_num (sub_contestId sub)))"
  by (auto simp: classify_step_origin opt_practice_def origin_update_def new_origin_def
           split: option.splits)

lemma step_failedContest:
  "opt_failedContest (jmap_get (cl_perProblemStatus (classify_step ix sub st)) k) =
     (opt_failedContest (jmap_get (cl_perProblemStatus st) k) \<or>
      (sub_key ix sub = Some k \<and> \<not> opt_solved (jmap_get (cl_perProblemStatus st) k) \<and>
       sub_verdict sub \<noteq> ''OK'' \<and> sub_verdict sub \<in> set contestFailVerdicts \<and>
       truthy_num (sub_contestId sub)))"
  by (auto simp: classify_step_status opt_failedContest_def opt_solved_def status_update_def
                 new_status_def
           split: option.splits)

lemma step_failedPractice:
  "opt_failedPractice (jmap_get (cl_perProblemStatus (classify_step ix sub st)) k) =
     (opt_failedPractice (jmap_get (cl_perProblemStatus st) k) \<or>
      (sub_key ix sub = Some k \<and> \<not> opt_solved (jmap_get (cl_perProblemStatus st) k) \<and>
       sub_verdict sub \<noteq> ''OK'' \<and> sub_verdict sub \<in> set contestFailVerdicts \<and>
       \<not> truthy_num (sub_contestId sub)))"
  by (auto simp: classify_step_status opt_failedPractice_def opt_solved_def status_update_def
                 new_status_def
           split: option.splits)

lemma fold_solved:
  "opt_solved (jmap_get (cl_perProblemStatus (fold (classify_step ix) subs st)) k) =
     (opt_solved (jmap_get (cl_perProblemStatus st) k) \<or>
      (\<exists>sub \<in> set subs. sub_key ix sub = Some k \<and> sub_verdict sub = ''OK''))"
  by (induction subs arbitrary: st) (auto simp: step_solved)

lemma fold_present:
  "(jmap_get (cl_perProblemStatus (fold (classify_step ix) subs st)) k \<noteq> None) =
     (jmap_get (cl_perProblemStatus st) k \<noteq> None \<or> (\<exists>sub \<in> set subs. sub_key ix sub = Some k))"
proof (induction subs arbitrary: st)
  case Nil
  show ?case by simp
next
  case (Cons x xs)
  have "(jmap_get (cl_perProblemStatus (fold (classify_step ix) (x # xs) st)) k \<noteq> None) =
        (jmap_get (cl_perProblemStatus (classify_step ix x st)) k \<noteq> None \<or>
         (\<exists>sub \<in> set xs. sub_key ix sub = Some k))"
    using Cons.IH [of "classify_step ix x st"] by simp
  also have "\<dots> = ((jmap_get (cl_perProblemStatus st) k \<noteq> None \<or> sub_key ix x = Some k) \<or>
         (\<exists>sub \<in> set xs. sub_key ix sub = Some k))"
    unfolding step_present ..
  finally show ?case by auto
qed

lemma fold_contest:
  "opt_contest (jmap_get (cl_perProblemOrigin (fold (classify_step ix) subs st)) k) =
     (opt_contest (jmap_get (cl_perProblemOrigin st) k) \<or>
      (\<exists>sub \<in> set subs. sub_key ix sub = Some k \<and> sub_verdict sub = ''OK'' \<and>
                         truthy_num (sub_contestId sub)))"
  by (induction subs arbitrary: st) (auto simp: step_contest)

lemma fold_practice:
  "opt_practice (jmap_get (cl_perProblemOrigin (fold (classify_step ix) subs st)) k) =
     (opt_practice (jmap_get (cl_perProblemOrigin st) k) \<or>
      (\<exists>sub \<in> set subs. sub_key ix sub = Some k \<and> sub_verdict sub = ''OK'' \<and>
                         \<not> truthy_num (sub_contestId sub)))"
  by (induction subs arbitrary: st) (auto simp: step_practice)

text \<open>A failure flag read together with \<open>solved\<close>, as the consumers read it.\<close>

lemma fold_effective_failedContest:
  "(opt_failedContest (jmap_get (cl_perProblemStatus (fold (classify_step ix) subs st)) k) \<and>
    \<not> opt_solved (jmap_get (cl_perProblemStatus (fold (classify_step ix) subs st)) k)) =
   (\<not> opt_solved (jmap_get (cl_perProblemStatus (fold (classify_step ix) subs st)) k) \<and>
    (opt_failedContest (jmap_get (cl_perProblemStatus st) k) \<or>
     (\<exists>sub \<in> set subs. sub_key ix sub = Some k \<and> sub_verdict sub \<in> set contestFailVerdicts \<and>
                        truthy_num (sub_contestId sub))))"
proof (induction subs arbitrary: st)
  case Nil
  show ?case by auto
next
  case (Cons x xs)
  let ?st' = "classify_step ix x st"
  let ?fin = "jmap_get (cl_perProblemStatus (fold (classify_step ix) xs ?st')) k"
  have unsolved: "\<not> opt_solved ?fin \<Longrightarrow>
      \<not> opt_solved (jmap_get (cl_perProblemStatus st) k) \<and>
      \<not> (sub_key ix x = Some k \<and> sub_verdict x = ''OK'')"
    by (simp add: fold_solved step_solved)
  show ?case
    using Cons.IH [of ?st'] unsolved
    by (auto simp: step_failedContest)
qed

lemma fold_effective_failedPractice:
  "(opt_failedPractice (jmap_get (cl_perProblemStatus (fold (classify_step ix) subs st)) k) \<and>
    \<not> opt_solved (jmap_get (cl_perProblemStatus (fold (classify_step ix) subs st)) k)) =
   (\<not> opt_solved (jmap_get (cl_perProblemStatus (fold (classify_step ix) subs st)) k) \<and>
    (opt_failedPractice (jmap_get (cl_perProblemStatus st) k) \<or>
     (\<exists>sub \<in> set subs. sub_key ix sub = Some k \<and> sub_verdict sub \<in> set contestFailVerdicts \<and>
                        \<not> truthy_num (sub_contestId sub))))"
proof (induction subs arbitrary: st)
  case Nil
  show ?case by auto
next
  case (Cons x xs)
  let ?st' = "classify_step ix x st"
  let ?fin = "jmap_get (cl_perProblemStatus (fold (classify_step ix) xs ?st')) k"
  have unsolved: "\<not> opt_solved ?fin \<Longrightarrow>
      \<not> opt_solved (jmap_get (cl_perProblemStatus st) k) \<and>
      \<not> (sub_key ix x = Some k \<and> sub_verdict x = ''OK'')"
    by (simp add: fold_solved step_solved)
  show ?case
    using Cons.IH [of ?st'] unsolved
    by (auto simp: step_failedPractice)
qed

text \<open>Once a problem is solved, no later submission changes its failure flags.\<close>

lemma fold_solved_keeps_flags:
  "opt_solved (jmap_get (cl_perProblemStatus st) k) \<Longrightarrow>
     opt_failedContest (jmap_get (cl_perProblemStatus (fold (classify_step ix) subs st)) k) =
       opt_failedContest (jmap_get (cl_perProblemStatus st) k) \<and>
     opt_failedPractice (jmap_get (cl_perProblemStatus (fold (classify_step ix) subs st)) k) =
       opt_failedPractice (jmap_get (cl_perProblemStatus st) k)"
proof (induction subs arbitrary: st)
  case Nil
  show ?case by simp
next
  case (Cons x xs)
  have "opt_solved (jmap_get (cl_perProblemStatus (classify_step ix x st)) k)"
    using Cons.prems by (simp add: step_solved)
  from Cons.IH [OF this] Cons.prems show ?case
    by (simp add: step_failedContest step_failedPractice)
qed

lemma aggregate_status:
  "perProblemStatus (aggregate subs ps) =
     cl_perProblemStatus (classify (ix_probIndex (build_index ps)) subs)"
  by (simp add: aggregate_def Let_def)

lemma aggregate_origin:
  "perProblemOrigin (aggregate subs ps) =
     cl_perProblemOrigin (classify (ix_probIndex (build_index ps)) subs)"
  by (simp add: aggregate_def Let_def)

lemma jmap_get_Nil: "jmap_get [] k = None"
  by (simp add: jmap_get_def)

lemma ex_status_wa_ok:
  "jmap_get (perProblemStatus (aggregate [ex_wrong_answer, ex_accepted] ex_catalog)) ''A-1''
     = Some \<lparr> status_solved = True, status_failedContest = True, status_failedPractice = False \<rparr>"
  by code_simp

lemma ex_status_ok_wa:
  "jmap_get (perProblemStatus (aggregate [ex_accepted, ex_wrong_answer] ex_catalog)) ''A-1''
     = Some \<lparr> status_solved = True, status_failedContest = False, status_failedPractice = False \<rparr>"
  by code_simp

text \<open>
  C2 (as amended). Classifying a permutation of a submission list gives, for every problem
  key, the same \<open>solved\<close>, the same origin flags, the same presence in the status map,
  and the same failure flags as the consumers read them (\<open>failedX \<and> \<not> solved\<close>). The
  raw failure flags of a solved problem are left out: they record whether a failure came
  before the first accepted submission.
\<close>

theorem classifier_order_independent:
  assumes "mset ys = mset xs"
  shows "jmap_has (perProblemStatus (aggregate ys ps)) k = jmap_has (perProblemStatus (aggregate xs ps)) k \<and>
         opt_solved (jmap_get (perProblemStatus (aggregate ys ps)) k) =
           opt_solved (jmap_get (perProblemStatus (aggregate xs ps)) k) \<and>
         opt_contest (jmap_get (perProblemOrigin (aggregate ys ps)) k) =
           opt_contest (jmap_get (perProblemOrigin (aggregate xs ps)) k) \<and>
         opt_practice (jmap_get (perProblemOrigin (aggregate ys ps)) k) =
           opt_practice (jmap_get (perProblemOrigin (aggregate xs ps)) k) \<and>
         (opt_failedContest (jmap_get (perProblemStatus (aggregate ys ps)) k) \<and>
            \<not> opt_solved (jmap_get (perProblemStatus (aggregate ys ps)) k)) =
         (opt_failedContest (jmap_get (perProblemStatus (aggregate xs ps)) k) \<and>
            \<not> opt_solved (jmap_get (perProblemStatus (aggregate xs ps)) k)) \<and>
         (opt_failedPractice (jmap_get (perProblemStatus (aggregate ys ps)) k) \<and>
            \<not> opt_solved (jmap_get (perProblemStatus (aggregate ys ps)) k)) =
         (opt_failedPractice (jmap_get (perProblemStatus (aggregate xs ps)) k) \<and>
            \<not> opt_solved (jmap_get (perProblemStatus (aggregate xs ps)) k))"
proof -
  have s: "set ys = set xs" using assms by (rule mset_eq_setD)
  let ?ix = "ix_probIndex (build_index ps)"
  let ?init = "\<lparr> cl_solvedProblems = [], cl_perProblemOrigin = [], cl_perProblemStatus = [] \<rparr>"
  have has: "jmap_has m k = (jmap_get m k \<noteq> None)" for m :: "(string, status) jmap"
    by (simp add: jmap_has_def jmap_get_def)
  have c1: "jmap_has (perProblemStatus (aggregate ys ps)) k =
            jmap_has (perProblemStatus (aggregate xs ps)) k"
    unfolding aggregate_status classify_def has fold_present s ..
  have c2: "opt_solved (jmap_get (perProblemStatus (aggregate ys ps)) k) =
            opt_solved (jmap_get (perProblemStatus (aggregate xs ps)) k)"
    unfolding aggregate_status classify_def fold_solved s ..
  have c3: "opt_contest (jmap_get (perProblemOrigin (aggregate ys ps)) k) =
            opt_contest (jmap_get (perProblemOrigin (aggregate xs ps)) k)"
    unfolding aggregate_origin classify_def fold_contest s ..
  have c4: "opt_practice (jmap_get (perProblemOrigin (aggregate ys ps)) k) =
            opt_practice (jmap_get (perProblemOrigin (aggregate xs ps)) k)"
    unfolding aggregate_origin classify_def fold_practice s ..
  have c5: "(opt_failedContest (jmap_get (perProblemStatus (aggregate ys ps)) k) \<and>
               \<not> opt_solved (jmap_get (perProblemStatus (aggregate ys ps)) k)) =
            (opt_failedContest (jmap_get (perProblemStatus (aggregate xs ps)) k) \<and>
               \<not> opt_solved (jmap_get (perProblemStatus (aggregate xs ps)) k))"
    using fold_effective_failedContest [of ?ix ys ?init k]
          fold_effective_failedContest [of ?ix xs ?init k] c2
    unfolding aggregate_status classify_def s by blast
  have c6: "(opt_failedPractice (jmap_get (perProblemStatus (aggregate ys ps)) k) \<and>
               \<not> opt_solved (jmap_get (perProblemStatus (aggregate ys ps)) k)) =
            (opt_failedPractice (jmap_get (perProblemStatus (aggregate xs ps)) k) \<and>
               \<not> opt_solved (jmap_get (perProblemStatus (aggregate xs ps)) k))"
    using fold_effective_failedPractice [of ?ix ys ?init k]
          fold_effective_failedPractice [of ?ix xs ?init k] c2
    unfolding aggregate_status classify_def s by blast
  from c1 c2 c3 c4 c5 c6 show ?thesis by blast
qed

theorem classifier_order_independent_witness:
  "mset [ex_accepted, ex_wrong_answer] =
     mset [ex_wrong_answer, ex_accepted] \<and>
   opt_solved (jmap_get (perProblemStatus
      (aggregate [ex_accepted, ex_wrong_answer] ex_catalog)) ''A-1'') =
   opt_solved (jmap_get (perProblemStatus
      (aggregate [ex_wrong_answer, ex_accepted] ex_catalog)) ''A-1'')"
proof -
  have m: "mset [ex_accepted, ex_wrong_answer] =
     mset [ex_wrong_answer, ex_accepted]"
    by (simp add: add.commute)
  from classifier_order_independent [OF m, of ex_catalog "''A-1''"] m show ?thesis by blast
qed

theorem classifier_raw_flags_order_dependent:
  "mset [ex_accepted, ex_wrong_answer] =
     mset [ex_wrong_answer, ex_accepted] \<and>
   opt_failedContest (jmap_get (perProblemStatus
      (aggregate [ex_wrong_answer, ex_accepted] ex_catalog)) ''A-1'') \<and>
   \<not> opt_failedContest (jmap_get (perProblemStatus
      (aggregate [ex_accepted, ex_wrong_answer] ex_catalog)) ''A-1'')"
  by (simp add: ex_status_wa_ok ex_status_ok_wa opt_failedContest_def add.commute)

lemma step_solved_unchanged:
  "opt_solved (jmap_get (cl_perProblemStatus st) k) \<Longrightarrow>
     jmap_get (cl_perProblemStatus (classify_step ix sub st)) k = jmap_get (cl_perProblemStatus st) k"
  by (auto simp: classify_step_status opt_solved_def status_update_def split: option.splits)

lemma fold_solved_unchanged:
  "opt_solved (jmap_get (cl_perProblemStatus st) k) \<Longrightarrow>
     jmap_get (cl_perProblemStatus (fold (classify_step ix) subs st)) k =
       jmap_get (cl_perProblemStatus st) k"
  by (induction subs arbitrary: st) (simp_all add: step_solved_unchanged)

text \<open>
  C7. If a problem is solved under a submission list, it is solved under every extension
  of the list, and the extension sets no failure flag of the problem: both flags are
  what they were.
\<close>

theorem classification_monotone:
  assumes "opt_solved (jmap_get (perProblemStatus (aggregate xs ps)) k)"
  shows "opt_solved (jmap_get (perProblemStatus (aggregate (xs @ ys) ps)) k) \<and>
         opt_failedContest (jmap_get (perProblemStatus (aggregate (xs @ ys) ps)) k) =
           opt_failedContest (jmap_get (perProblemStatus (aggregate xs ps)) k) \<and>
         opt_failedPractice (jmap_get (perProblemStatus (aggregate (xs @ ys) ps)) k) =
           opt_failedPractice (jmap_get (perProblemStatus (aggregate xs ps)) k)"
proof -
  have "jmap_get (perProblemStatus (aggregate (xs @ ys) ps)) k =
        jmap_get (perProblemStatus (aggregate xs ps)) k"
    using assms unfolding aggregate_status classify_def fold_append comp_def
    by (rule fold_solved_unchanged)
  with assms show ?thesis by simp
qed

theorem classification_monotone_witness:
  "opt_solved (jmap_get (perProblemStatus (aggregate [ex_accepted] ex_catalog)) ''A-1'') \<and>
   opt_solved (jmap_get (perProblemStatus (aggregate ([ex_accepted] @ [ex_wrong_answer]) ex_catalog)) ''A-1'') \<and>
   opt_failedContest (jmap_get (perProblemStatus (aggregate ([ex_accepted] @ [ex_wrong_answer]) ex_catalog)) ''A-1'') =
     opt_failedContest (jmap_get (perProblemStatus (aggregate [ex_accepted] ex_catalog)) ''A-1'')"
proof -
  have h: "opt_solved (jmap_get (perProblemStatus (aggregate [ex_accepted] ex_catalog)) ''A-1'')"
    by code_simp
  from classification_monotone [OF h, of "[ex_wrong_answer]"] h show ?thesis by blast
qed

lemma contestFailVerdicts_set:
  "(v \<noteq> ''OK'' \<and> v \<in> set contestFailVerdicts) =
     (v \<in> {''WRONG_ANSWER'', ''TIME_LIMIT_EXCEEDED'', ''RUNTIME_ERROR'', ''MEMORY_LIMIT_EXCEEDED'',
            ''IDLENESS_LIMIT_EXCEEDED'', ''REJECTED'', ''FAILED'', ''PRESENTATION_ERROR'',
            ''CHALLENGED'', ''PARTIAL'', ''COMPILATION_ERROR'', ''CRASHED'', ''SKIPPED''})"
  unfolding contestFailVerdicts_def by auto

text \<open>
  C3 (as amended). For a submission on an indexed problem that is not yet solved, the
  failure flag of the submission's kind (contest or practice) is set exactly when the
  verdict is one of the thirteen verdicts of \<^verbatim>\<open>contestFailVerdicts\<close>: the twelve
  the specification lists and \<^verbatim>\<open>RUNTIME_ERROR\<close>. No other verdict sets a flag,
  and the flag of the other kind is left as it was.
\<close>

theorem failure_verdicts_exact:
  assumes "sub_key (ix_probIndex (build_index ps)) sub = Some k"
    and "\<not> opt_solved (jmap_get (perProblemStatus (aggregate xs ps)) k)"
  shows "opt_failedContest (jmap_get (perProblemStatus (aggregate (xs @ [sub]) ps)) k) =
           (opt_failedContest (jmap_get (perProblemStatus (aggregate xs ps)) k) \<or>
            (truthy_num (sub_contestId sub) \<and>
             sub_verdict sub \<in>
               {''WRONG_ANSWER'', ''TIME_LIMIT_EXCEEDED'', ''RUNTIME_ERROR'', ''MEMORY_LIMIT_EXCEEDED'',
                ''IDLENESS_LIMIT_EXCEEDED'', ''REJECTED'', ''FAILED'', ''PRESENTATION_ERROR'',
                ''CHALLENGED'', ''PARTIAL'', ''COMPILATION_ERROR'', ''CRASHED'', ''SKIPPED''})) \<and>
         opt_failedPractice (jmap_get (perProblemStatus (aggregate (xs @ [sub]) ps)) k) =
           (opt_failedPractice (jmap_get (perProblemStatus (aggregate xs ps)) k) \<or>
            (\<not> truthy_num (sub_contestId sub) \<and>
             sub_verdict sub \<in>
               {''WRONG_ANSWER'', ''TIME_LIMIT_EXCEEDED'', ''RUNTIME_ERROR'', ''MEMORY_LIMIT_EXCEEDED'',
                ''IDLENESS_LIMIT_EXCEEDED'', ''REJECTED'', ''FAILED'', ''PRESENTATION_ERROR'',
                ''CHALLENGED'', ''PARTIAL'', ''COMPILATION_ERROR'', ''CRASHED'', ''SKIPPED''}))"
proof -
  let ?ix = "ix_probIndex (build_index ps)"
  let ?st = "classify ?ix xs"
  have app: "classify ?ix (xs @ [sub]) = classify_step ?ix sub ?st"
    by (simp add: classify_def)
  have unsolved: "\<not> opt_solved (jmap_get (cl_perProblemStatus ?st) k)"
    using assms(2) by (simp add: aggregate_status)
  have fc: "opt_failedContest (jmap_get (cl_perProblemStatus (classify_step ?ix sub ?st)) k) =
      (opt_failedContest (jmap_get (cl_perProblemStatus ?st) k) \<or>
       (truthy_num (sub_contestId sub) \<and>
        (sub_verdict sub \<noteq> ''OK'' \<and> sub_verdict sub \<in> set contestFailVerdicts)))"
    using assms(1) unsolved by (auto simp: step_failedContest)
  have fp: "opt_failedPractice (jmap_get (cl_perProblemStatus (classify_step ?ix sub ?st)) k) =
      (opt_failedPractice (jmap_get (cl_perProblemStatus ?st) k) \<or>
       (\<not> truthy_num (sub_contestId sub) \<and>
        (sub_verdict sub \<noteq> ''OK'' \<and> sub_verdict sub \<in> set contestFailVerdicts)))"
    using assms(1) unsolved by (auto simp: step_failedPractice)
  show ?thesis
    using fc fp unfolding aggregate_status app contestFailVerdicts_set by blast
qed

theorem failure_verdicts_exact_witness:
  "sub_key (ix_probIndex (build_index ex_catalog)) ex_runtime_error = Some ''A-1'' \<and>
   \<not> opt_solved (jmap_get (perProblemStatus (aggregate [] ex_catalog)) ''A-1'') \<and>
   opt_failedContest (jmap_get (perProblemStatus (aggregate ([] @ [ex_runtime_error]) ex_catalog)) ''A-1'')"
proof -
  have h1: "sub_key (ix_probIndex (build_index ex_catalog)) ex_runtime_error = Some ''A-1''"
    by code_simp
  have h2: "\<not> opt_solved (jmap_get (perProblemStatus (aggregate [] ex_catalog)) ''A-1'')"
    by code_simp
  have c: "truthy_num (sub_contestId ex_runtime_error)"
    by code_simp
  have v: "sub_verdict ex_runtime_error = ''RUNTIME_ERROR''"
    by code_simp
  from failure_verdicts_exact [OF h1 h2] c h1 h2 show ?thesis
    unfolding v by simp
qed

theorem runtime_error_sets_failure_flag:
  "''RUNTIME_ERROR'' \<notin> set spec_failure_verdicts \<and>
   sub_verdict ex_runtime_error = ''RUNTIME_ERROR'' \<and>
   \<not> opt_solved (jmap_get (perProblemStatus (aggregate [] ex_catalog)) ''A-1'') \<and>
   \<not> opt_failedContest (jmap_get (perProblemStatus (aggregate [] ex_catalog)) ''A-1'') \<and>
   opt_failedContest (jmap_get (perProblemStatus (aggregate [ex_runtime_error] ex_catalog)) ''A-1'')"
  by code_simp

lemma set_jmap_set: "set (jmap_set m k v) \<subseteq> insert (k, v) (set m)"
  by (induction m) (auto split: if_splits)

lemma jmap_get_SomeD: "jmap_get m k = Some v \<Longrightarrow> (k, v) \<in> set m"
  by (simp add: jmap_get_def map_of_SomeD)

lemma tag_step_tagStats:
  "ru_tagStats (tag_step key rating st og t ru) =
     jmap_set (ru_tagStats ru) t
       (stat_update rating st og
          (case jmap_get (ru_tagStats ru) t of None \<Rightarrow> new_stat t | Some s \<Rightarrow> s))"
  by (simp add: tag_step_def stat_update_def Let_def)

text \<open>A property of every entry of \<open>tagStats\<close> that the loop keeps.\<close>

lemma tag_step_keeps:
  assumes inv: "\<forall>x \<in> set (ru_tagStats ru). Q (fst x) (snd x)"
    and new: "Q t (new_stat t)"
    and upd: "\<And>s. Q t s \<Longrightarrow> Q t (stat_update rating st og s)"
  shows "\<forall>x \<in> set (ru_tagStats (tag_step key rating st og t ru)). Q (fst x) (snd x)"
proof -
  let ?s0 = "case jmap_get (ru_tagStats ru) t of None \<Rightarrow> new_stat t | Some s \<Rightarrow> s"
  have "Q t ?s0"
  proof (cases "jmap_get (ru_tagStats ru) t")
    case None
    with new show ?thesis by simp
  next
    case (Some s)
    then have "(t, s) \<in> set (ru_tagStats ru)" by (rule jmap_get_SomeD)
    with inv have "Q (fst (t, s)) (snd (t, s))" by blast
    with Some show ?thesis by simp
  qed
  then have "Q t (stat_update rating st og ?s0)" by (rule upd)
  then show ?thesis
    using inv set_jmap_set [of "ru_tagStats ru" t "stat_update rating st og ?s0"]
    unfolding tag_step_tagStats by auto
qed

lemma fold_tag_step_keeps:
  assumes new: "\<And>t. Q t (new_stat t)"
    and upd: "\<And>t s. Q t s \<Longrightarrow> Q t (stat_update rating st og s)"
  shows "\<forall>x \<in> set (ru_tagStats ru). Q (fst x) (snd x) \<Longrightarrow>
         \<forall>x \<in> set (ru_tagStats (fold (tag_step key rating st og) ts ru)). Q (fst x) (snd x)"
proof (induction ts arbitrary: ru)
  case Nil
  then show ?case by simp
next
  case (Cons t ts)
  have "\<forall>x \<in> set (ru_tagStats (tag_step key rating st og t ru)). Q (fst x) (snd x)"
    using Cons.prems new upd by (rule tag_step_keeps)
  from Cons.IH [OF this] show ?case by simp
qed

lemma build_rollup_keeps:
  assumes new: "\<And>t. Q t (new_stat t)"
    and upd: "\<And>t s key m. (key, m) \<in> set pm \<Longrightarrow> Q t s \<Longrightarrow>
        Q t (stat_update (meta_rating m) (jmap_get (cl_perProblemStatus cl) key)
               (jmap_get (cl_perProblemOrigin cl) key) s)"
  shows "\<forall>x \<in> set (ru_tagStats (build_rollup cl pm)). Q (fst x) (snd x)"
proof -
  have "\<forall>x \<in> set (ru_tagStats ru). Q (fst x) (snd x) \<Longrightarrow> set ms \<subseteq> set pm \<Longrightarrow>
        \<forall>x \<in> set (ru_tagStats (fold (problem_step cl) ms ru)). Q (fst x) (snd x)" for ms ru
  proof (induction ms arbitrary: ru)
    case Nil
    then show ?case by simp
  next
    case (Cons km ms)
    have mem: "(fst km, snd km) \<in> set pm" using Cons.prems(2) by simp
    have "\<forall>x \<in> set (ru_tagStats (problem_step cl km ru)). Q (fst x) (snd x)"
      unfolding problem_step_def Let_def
      using new upd [OF mem] Cons.prems(1) by (rule fold_tag_step_keeps)
    from Cons.IH [OF this] Cons.prems(2) show ?case by simp
  qed
  from this [of "\<lparr> ru_tagStats = [], ru_tagRatingsAll = [], ru_perTagProblemList = [] \<rparr>" pm]
  show ?thesis by (simp add: build_rollup_def)
qed

lemma classify_solved_has_origin:
  "opt_solved (jmap_get (cl_perProblemStatus (classify ix subs)) k) \<Longrightarrow>
     opt_contest (jmap_get (cl_perProblemOrigin (classify ix subs)) k) \<or>
     opt_practice (jmap_get (cl_perProblemOrigin (classify ix subs)) k)"
  unfolding classify_def fold_solved fold_contest fold_practice
  by (auto simp: jmap_get_Nil opt_solved_def)

lemma stat_update_split:
  assumes "opt_solved st \<Longrightarrow> opt_contest og \<or> opt_practice og"
    and "solvedContest s + solvedPractice s = solved s"
  shows "solvedContest (stat_update rating st og s) + solvedPractice (stat_update rating st og s) =
         solved (stat_update rating st og s)"
  using assms by (auto simp: stat_update_def solved_update_def Let_def)

lemma post_pass_counts:
  "solved (post_pass tra s) = solved s \<and> solvedContest (post_pass tra s) = solvedContest s \<and>
   solvedPractice (post_pass tra s) = solvedPractice s \<and>
   totalAvailable (post_pass tra s) = totalAvailable s \<and> tag (post_pass tra s) = tag s \<and>
   maxSolved (post_pass tra s) = maxSolved s"
  by (simp add: post_pass_def Let_def split: option.splits)

lemma tagArray_aggregate:
  "set (tagArray (aggregate subs ps)) =
     post_pass (tagRatingsAll (aggregate subs ps)) `
       snd ` set (ru_tagStats (build_rollup (classify (ix_probIndex (build_index ps)) subs)
                                  (ix_perProblemMeta (build_index ps))))"
  by (simp add: aggregate_def Let_def image_image)

text \<open>
  C9. For every tag statistic that \<^verbatim>\<open>aggregate\<close> returns, the contest and the
  practice counters add up to \<open>solved\<close>.
\<close>

theorem solved_split_additive:
  assumes "s \<in> set (tagArray (aggregate subs ps))"
  shows "solvedContest s + solvedPractice s = solved s"
proof -
  let ?cl = "classify (ix_probIndex (build_index ps)) subs"
  let ?pm = "ix_perProblemMeta (build_index ps)"
  have inv: "\<forall>x \<in> set (ru_tagStats (build_rollup ?cl ?pm)).
               solvedContest (snd x) + solvedPractice (snd x) = solved (snd x)"
  proof (rule build_rollup_keeps)
    fix t show "solvedContest (new_stat t) + solvedPractice (new_stat t) = solved (new_stat t)"
      by (simp add: new_stat_def)
  next
    fix t :: string and s :: tagstat_live and key :: string and m :: meta
    assume eq: "solvedContest s + solvedPractice s = solved s"
    show "solvedContest (stat_update (meta_rating m) (jmap_get (cl_perProblemStatus ?cl) key)
                   (jmap_get (cl_perProblemOrigin ?cl) key) s) +
               solvedPractice (stat_update (meta_rating m) (jmap_get (cl_perProblemStatus ?cl) key)
                   (jmap_get (cl_perProblemOrigin ?cl) key) s) =
               solved (stat_update (meta_rating m) (jmap_get (cl_perProblemStatus ?cl) key)
                   (jmap_get (cl_perProblemOrigin ?cl) key) s)"
      using classify_solved_has_origin [of "ix_probIndex (build_index ps)" subs key] eq
      by (intro stat_update_split) auto
  qed
  from assms obtain x where "x \<in> set (ru_tagStats (build_rollup ?cl ?pm))"
    and "s = post_pass (tagRatingsAll (aggregate subs ps)) (snd x)"
    unfolding tagArray_aggregate by auto
  with inv show ?thesis by (simp add: post_pass_counts)
qed

lemma ex_solved_tags: "map tag (tagArray (aggregate [ex_accepted] ex_catalog)) = [''dp'']"
  by code_simp

theorem solved_split_additive_witness:
  "hd (tagArray (aggregate [ex_accepted] ex_catalog)) \<in> set (tagArray (aggregate [ex_accepted] ex_catalog)) \<and>
   solvedContest (hd (tagArray (aggregate [ex_accepted] ex_catalog))) +
     solvedPractice (hd (tagArray (aggregate [ex_accepted] ex_catalog))) =
   solved (hd (tagArray (aggregate [ex_accepted] ex_catalog)))"
proof -
  have "tagArray (aggregate [ex_accepted] ex_catalog) \<noteq> []"
    using ex_solved_tags by auto
  then have h: "hd (tagArray (aggregate [ex_accepted] ex_catalog)) \<in>
                set (tagArray (aggregate [ex_accepted] ex_catalog))"
    by simp
  from solved_split_additive [OF h] h show ?thesis by simp
qed

lemma set_jset_add: "set (jset_add s x) = insert x (set s)"
  by (auto simp: jset_add_def jset_has_def)

lemma tag_step_ratings:
  "ratings_view (ru_tagRatingsAll (tag_step key rating st og t' ru)) t =
     ratings_view (ru_tagRatingsAll ru) t \<union>
       (if t = t' \<and> truthy_rating rating then {the rating} else {})"
  by (auto simp: tag_step_def Let_def ratings_view_def jmap_get_set set_jset_add
           split: option.splits)

lemma fold_tag_step_ratings:
  "ratings_view (ru_tagRatingsAll (fold (tag_step key rating st og) ts ru)) t =
     ratings_view (ru_tagRatingsAll ru) t \<union>
       (if t \<in> set ts \<and> truthy_rating rating then {the rating} else {})"
  by (induction ts arbitrary: ru) (auto simp: tag_step_ratings)

lemma rated_ratings_Cons:
  "set (rated_ratings (km # pm) t) =
     (if t \<in> set (meta_tags (snd km)) \<and> truthy_rating (meta_rating (snd km))
      then {the (meta_rating (snd km))} else {}) \<union> set (rated_ratings pm t)"
  by (simp add: rated_ratings_def)

lemma fold_problem_step_ratings:
  "ratings_view (ru_tagRatingsAll (fold (problem_step cl) pm ru)) t =
     ratings_view (ru_tagRatingsAll ru) t \<union> set (rated_ratings pm t)"
proof (induction pm arbitrary: ru)
  case Nil
  show ?case by (simp add: rated_ratings_def)
next
  case (Cons km pm)
  show ?case
    unfolding fold_simps Cons.IH rated_ratings_Cons
    by (simp add: problem_step_def Let_def fold_tag_step_ratings Un_assoc)
qed

lemma build_rollup_ratings:
  "ratings_view (ru_tagRatingsAll (build_rollup cl pm)) t = set (rated_ratings pm t)"
  unfolding build_rollup_def fold_problem_step_ratings
  by (simp add: ratings_view_def jmap_get_Nil)

lemma next_above_cong: "set rs = set rs' \<Longrightarrow> next_above m rs = next_above m rs'"
  by (simp add: next_above_def filter_empty_conv)

lemma find_sorted_next_above:
  "sorted xs \<Longrightarrow> find (\<lambda>r. m < r) xs = next_above m xs"
proof (induction xs)
  case Nil
  show ?case by (simp add: next_above_def)
next
  case (Cons x xs)
  show ?case
  proof (cases "m < x")
    case True
    have "Min (insert x {r \<in> set xs. m < r}) = x"
      using Cons.prems by (intro Min_eqI) auto
    with True show ?thesis by (simp add: next_above_def)
  next
    case False
    with Cons show ?thesis by (simp add: next_above_def)
  qed
qed

lemma post_pass_next:
  assumes "nextTargetDifficulty s = None"
  shows "nextTargetDifficulty (post_pass tra s) =
     (case maxSolved s of
        None \<Rightarrow> None
      | Some m \<Rightarrow> (case jmap_get tra (tag s) of None \<Rightarrow> None | Some allR \<Rightarrow> next_above m allR))"
proof -
  have "find (\<lambda>r. m < r) (sort allR) = next_above m allR" for m allR
    using find_sorted_next_above [of "sort allR" m] next_above_cong [of "sort allR" allR m]
    by (simp del: filter_sort)
  then show ?thesis
    using assms by (simp add: post_pass_def Let_def split: option.splits)
qed

lemma next_above_view:
  "(case jmap_get tra t of None \<Rightarrow> None | Some allR \<Rightarrow> next_above m allR) = next_above m rs"
  if "ratings_view tra t = set rs"
proof (cases "jmap_get tra t")
  case None
  with that have "set rs = {}" by (simp add: ratings_view_def)
  with None show ?thesis by (simp add: next_above_def)
next
  case (Some allR)
  with that have "set allR = set rs" by (simp add: ratings_view_def)
  then have "next_above m allR = next_above m rs" by (rule next_above_cong)
  with Some show ?thesis by simp
qed

lemma aggregate_meta: "perProblemMeta (aggregate subs ps) = ix_perProblemMeta (build_index ps)"
  by (simp add: aggregate_def Let_def)

lemma aggregate_ratings:
  "tagRatingsAll (aggregate subs ps) =
     ru_tagRatingsAll (build_rollup (classify (ix_probIndex (build_index ps)) subs)
                         (ix_perProblemMeta (build_index ps)))"
  by (simp add: aggregate_def Let_def)

lemma stat_update_next:
  "nextTargetDifficulty (stat_update rating st og s) = nextTargetDifficulty s"
  by (simp add: stat_update_def solved_update_def Let_def)

text \<open>
  C8. For every tag statistic that \<^verbatim>\<open>aggregate\<close> returns, \<open>nextTargetDifficulty\<close> is
  the smallest rating, among the ratings of the rated catalog problems carrying the tag,
  that is strictly greater than \<open>maxSolved\<close>; it is null when \<open>maxSolved\<close> is null or
  when no such rating exists.
\<close>

theorem next_target_is_least_above:
  assumes "s \<in> set (tagArray (aggregate subs ps))"
  shows "nextTargetDifficulty s =
     (case maxSolved s of
        None \<Rightarrow> None
      | Some m \<Rightarrow> next_above m (rated_ratings (perProblemMeta (aggregate subs ps)) (tag s)))"
proof -
  let ?cl = "classify (ix_probIndex (build_index ps)) subs"
  let ?pm = "ix_perProblemMeta (build_index ps)"
  let ?tra = "tagRatingsAll (aggregate subs ps)"
  have inv: "\<forall>x \<in> set (ru_tagStats (build_rollup ?cl ?pm)). nextTargetDifficulty (snd x) = None"
    by (rule build_rollup_keeps) (simp_all add: new_stat_def stat_update_next)
  from assms obtain x where x: "x \<in> set (ru_tagStats (build_rollup ?cl ?pm))"
    and s: "s = post_pass ?tra (snd x)"
    unfolding tagArray_aggregate by auto
  from inv x have none: "nextTargetDifficulty (snd x) = None" by blast
  have view: "ratings_view ?tra (tag (snd x)) = set (rated_ratings ?pm (tag (snd x)))"
    unfolding aggregate_ratings by (rule build_rollup_ratings)
  show ?thesis
    unfolding s post_pass_next [OF none] aggregate_meta
    by (simp add: post_pass_counts next_above_view [OF view] split: option.splits)
qed

lemma ex_two_tags:
  "map tag (tagArray (aggregate [ex_accepted] ex_catalog2)) = [''dp'']"
  by code_simp

theorem next_target_is_least_above_witness:
  "hd (tagArray (aggregate [ex_accepted] ex_catalog2)) \<in> set (tagArray (aggregate [ex_accepted] ex_catalog2)) \<and>
   nextTargetDifficulty (hd (tagArray (aggregate [ex_accepted] ex_catalog2))) = Some 1700"
proof -
  have "tagArray (aggregate [ex_accepted] ex_catalog2) \<noteq> []"
    using ex_two_tags by auto
  then have h: "hd (tagArray (aggregate [ex_accepted] ex_catalog2)) \<in>
                set (tagArray (aggregate [ex_accepted] ex_catalog2))"
    by simp
  have m: "maxSolved (hd (tagArray (aggregate [ex_accepted] ex_catalog2))) = Some 1500"
    by code_simp
  have t: "tag (hd (tagArray (aggregate [ex_accepted] ex_catalog2))) = ''dp''"
    by code_simp
  have r: "next_above 1500 (rated_ratings (perProblemMeta (aggregate [ex_accepted] ex_catalog2)) ''dp'') = Some 1700"
    by code_simp
  from next_target_is_least_above [OF h] h show ?thesis
    unfolding m t by (simp add: r)
qed

lemma keys_jmap_set:
  "map fst (jmap_set m k v) = (if k \<in> set (map fst m) then map fst m else map fst m @ [k])"
  by (induction m) (force split: if_splits)+

lemma fst_jmap_set: "set (map fst (jmap_set m k v)) = insert k (set (map fst m))"
  by (auto simp: keys_jmap_set)

lemma distinct_jmap_set: "distinct (map fst m) \<Longrightarrow> distinct (map fst (jmap_set m k v))"
  by (simp add: keys_jmap_set)

lemma jmap_get_distinct: "distinct (map fst m) \<Longrightarrow> (k, v) \<in> set m \<Longrightarrow> jmap_get m k = Some v"
  by (simp add: jmap_get_def)

lemma jmap_get_None: "(jmap_get m k = None) = (k \<notin> set (map fst m))"
  by (simp add: jmap_get_def map_of_eq_None_iff)

lemma tag_step_ptl:
  "ptl_view (ru_perTagProblemList (tag_step key rating st og t' ru)) t =
     (if t = t' then jset_add (ptl_view (ru_perTagProblemList ru) t) key
      else ptl_view (ru_perTagProblemList ru) t)"
  by (simp add: tag_step_def Let_def ptl_view_def jmap_get_set)

lemma jset_add_idem: "jset_add (jset_add s x) x = jset_add s x"
  by (simp add: jset_add_def jset_has_def)

lemma fold_tag_step_ptl:
  "ptl_view (ru_perTagProblemList (fold (tag_step key rating st og) ts ru)) t =
     (if t \<in> set ts then jset_add (ptl_view (ru_perTagProblemList ru) t) key
      else ptl_view (ru_perTagProblemList ru) t)"
  by (induction ts arbitrary: ru) (auto simp: tag_step_ptl jset_add_idem)

lemma fold_problem_step_ptl:
  "distinct (map fst pm) \<Longrightarrow> set (map fst pm) \<inter> set (ptl_view (ru_perTagProblemList ru) t) = {} \<Longrightarrow>
   ptl_view (ru_perTagProblemList (fold (problem_step cl) pm ru)) t =
     ptl_view (ru_perTagProblemList ru) t @ tagged_keys pm t"
proof (induction pm arbitrary: ru)
  case Nil
  show ?case by (simp add: tagged_keys_def)
next
  case (Cons km pm)
  let ?ru' = "problem_step cl km ru"
  have step: "ptl_view (ru_perTagProblemList ?ru') t =
      (if t \<in> set (meta_tags (snd km)) then ptl_view (ru_perTagProblemList ru) t @ [fst km]
       else ptl_view (ru_perTagProblemList ru) t)"
    using Cons.prems(2)
    by (simp add: problem_step_def Let_def fold_tag_step_ptl jset_add_def jset_has_def)
  have d: "distinct (map fst pm)" using Cons.prems(1) by simp
  have disj: "set (map fst pm) \<inter> set (ptl_view (ru_perTagProblemList ?ru') t) = {}"
    using Cons.prems unfolding step by auto
  show ?case
    using Cons.IH [OF d disj] unfolding step by (simp add: tagged_keys_def)
qed

lemma build_rollup_ptl:
  "distinct (map fst pm) \<Longrightarrow>
   ptl_view (ru_perTagProblemList (build_rollup cl pm)) t = tagged_keys pm t"
  unfolding build_rollup_def
  by (subst fold_problem_step_ptl) (simp_all add: ptl_view_def jmap_get_Nil)

lemma stat_update_total:
  "totalAvailable (stat_update rating st og s) = totalAvailable s + 1"
  by (simp add: stat_update_def solved_update_def Let_def)

lemma tag_step_total:
  "total_view (ru_tagStats (tag_step key rating st og t' ru)) t =
     total_view (ru_tagStats ru) t + (if t = t' then 1 else 0)"
  by (simp add: tag_step_tagStats total_view_def jmap_get_set stat_update_total new_stat_def
           split: option.splits)

lemma fold_tag_step_total:
  "total_view (ru_tagStats (fold (tag_step key rating st og) ts ru)) t =
     total_view (ru_tagStats ru) t + count_list ts t"
  by (induction ts arbitrary: ru) (auto simp: tag_step_total)

lemma fold_problem_step_total:
  "total_view (ru_tagStats (fold (problem_step cl) pm ru)) t =
     total_view (ru_tagStats ru) t + sum_list (map (\<lambda>km. count_list (meta_tags (snd km)) t) pm)"
  by (induction pm arbitrary: ru) (auto simp: problem_step_def Let_def fold_tag_step_total)

lemma build_rollup_total:
  "total_view (ru_tagStats (build_rollup cl pm)) t =
     sum_list (map (\<lambda>km. count_list (meta_tags (snd km)) t) pm)"
  unfolding build_rollup_def fold_problem_step_total
  by (simp add: total_view_def jmap_get_Nil)

lemma count_list_distinct: "distinct xs \<Longrightarrow> count_list xs x = (if x \<in> set xs then 1 else 0)"
  by (induction xs) auto

lemma distinct_tags_total:
  "(\<forall>km \<in> set pm. distinct (meta_tags (snd km))) \<Longrightarrow>
   sum_list (map (\<lambda>km. count_list (meta_tags (snd km)) t) pm) = length (tagged_keys pm t)"
  by (induction pm) (auto simp: tagged_keys_def count_list_distinct)

lemma tag_step_keys_distinct:
  "distinct (map fst (ru_tagStats ru)) \<Longrightarrow>
   distinct (map fst (ru_tagStats (tag_step key rating st og t ru)))"
  unfolding tag_step_tagStats by (rule distinct_jmap_set)

lemma build_rollup_keys_distinct: "distinct (map fst (ru_tagStats (build_rollup cl pm)))"
proof -
  have inner: "distinct (map fst (ru_tagStats ru)) \<Longrightarrow>
      distinct (map fst (ru_tagStats (fold (tag_step key rating st og) ts ru)))"
    for key rating st og ts ru
    by (induction ts arbitrary: ru) (simp_all add: tag_step_keys_distinct)
  have outer: "distinct (map fst (ru_tagStats ru)) \<Longrightarrow>
      distinct (map fst (ru_tagStats (fold (problem_step cl) ms ru)))" for ms ru
    by (induction ms arbitrary: ru) (simp_all add: problem_step_def Let_def inner)
  show ?thesis unfolding build_rollup_def by (rule outer) simp
qed

lemma stat_update_tag: "tag (stat_update rating st og s) = tag s"
  by (simp add: stat_update_def solved_update_def Let_def)

lemma build_rollup_tag: "\<forall>x \<in> set (ru_tagStats (build_rollup cl pm)). tag (snd x) = fst x"
  by (rule build_rollup_keeps) (simp_all add: new_stat_def stat_update_tag)

lemma build_rollup_entry:
  assumes "x \<in> set (ru_tagStats (build_rollup cl pm))"
  shows "jmap_get (ru_tagStats (build_rollup cl pm)) (tag (snd x)) = Some (snd x)"
proof -
  have "tag (snd x) = fst x" using assms build_rollup_tag by blast
  moreover have "jmap_get (ru_tagStats (build_rollup cl pm)) (fst x) = Some (snd x)"
    using assms by (intro jmap_get_distinct build_rollup_keys_distinct) simp
  ultimately show ?thesis by simp
qed

lemma build_index_keys_distinct: "distinct (map fst (ix_perProblemMeta (build_index ps)))"
proof -
  have "distinct (map fst (ix_perProblemMeta ix)) \<Longrightarrow>
        distinct (map fst (ix_perProblemMeta (fold index_step xs ix)))" for xs ix
    by (induction xs arbitrary: ix) (simp_all add: index_step_def Let_def distinct_jmap_set)
  then show ?thesis by (simp add: build_index_def)
qed

lemma build_index_metas:
  "km \<in> set (ix_perProblemMeta (build_index ps)) \<Longrightarrow> \<exists>p \<in> set (problems ps). snd km = meta_of p"
proof -
  have "\<forall>km \<in> set (ix_perProblemMeta ix). \<exists>p \<in> S. snd km = meta_of p \<Longrightarrow> set xs \<subseteq> S \<Longrightarrow>
        \<forall>km \<in> set (ix_perProblemMeta (fold index_step xs ix)). \<exists>p \<in> S. snd km = meta_of p"
    for xs ix S
  proof (induction xs arbitrary: ix)
    case Nil
    then show ?case by simp
  next
    case (Cons x xs)
    have "set (ix_perProblemMeta (index_step x ix)) \<subseteq>
          insert (probKey (Some x), meta_of x) (set (ix_perProblemMeta ix))"
      by (simp add: index_step_def Let_def set_jmap_set del: probKey.simps)
    then have "\<forall>km \<in> set (ix_perProblemMeta (index_step x ix)). \<exists>p \<in> S. snd km = meta_of p"
      using Cons.prems by fastforce
    from Cons.IH [OF this] Cons.prems(2) show ?case by simp
  qed
  from this [of "\<lparr> ix_probIndex = [], ix_perProblemMeta = [] \<rparr>" "set (problems ps)" "problems ps"]
  show "km \<in> set (ix_perProblemMeta (build_index ps)) \<Longrightarrow> ?thesis"
    by (simp add: build_index_def)
qed

lemma sum_jmap_set:
  "sum_list (map (\<lambda>x. f (snd x)) (jmap_set m k v)) +
     (case jmap_get m k of None \<Rightarrow> 0 | Some old \<Rightarrow> f old) =
   sum_list (map (\<lambda>x. f (snd x)) m) + (f v :: nat)"
  by (induction m) (auto simp: jmap_get_def)

lemma bucket_step_sum:
  "bucket_sum (bucket_step pm om sm key dm) =
     bucket_sum dm + (if jmap_get pm key = None then 0 else 1)"
proof (cases "jmap_get pm key")
  case None
  then show ?thesis by (simp add: bucket_step_def)
next
  case (Some m)
  let ?r = "rating_or_zero (meta_rating m)"
  let ?b0 = "case jmap_get dm ?r of None \<Rightarrow> new_bucket | Some b \<Rightarrow> b"
  obtain b2 where step: "bucket_step pm om sm key dm = jmap_set dm ?r b2"
    and b2: "b_total b2 = b_total ?b0 + 1"
    by (auto simp: bucket_step_def Some Let_def)
  have "(case jmap_get dm ?r of None \<Rightarrow> 0 | Some old \<Rightarrow> b_total old) = b_total ?b0"
    by (simp add: new_bucket_def split: option.splits)
  with sum_jmap_set [of b_total dm ?r b2] b2 show ?thesis
    unfolding step bucket_sum_def by (simp add: Some)
qed

lemma fold_bucket_step_sum:
  "bucket_sum (fold (bucket_step pm om sm) keys dm) =
     bucket_sum dm + length (filter (\<lambda>k. jmap_get pm k \<noteq> None) keys)"
  by (induction keys arbitrary: dm) (simp_all add: bucket_step_sum)

lemma bucket_step_balanced:
  assumes "\<forall>x \<in> set dm. bucket_balanced (snd x)"
  shows "\<forall>x \<in> set (bucket_step pm om sm key dm). bucket_balanced (snd x)"
proof (cases "jmap_get pm key")
  case None
  with assms show ?thesis by (simp add: bucket_step_def)
next
  case (Some m)
  let ?r = "rating_or_zero (meta_rating m)"
  let ?b0 = "case jmap_get dm ?r of None \<Rightarrow> new_bucket | Some b \<Rightarrow> b"
  have b0: "bucket_balanced ?b0"
  proof (cases "jmap_get dm ?r")
    case None
    then show ?thesis by (simp add: bucket_balanced_def new_bucket_def)
  next
    case (Some b)
    then have "(?r, b) \<in> set dm" by (rule jmap_get_SomeD)
    with assms have "bucket_balanced (snd (?r, b))" by blast
    with Some show ?thesis by simp
  qed
  obtain b2 where step: "bucket_step pm om sm key dm = jmap_set dm ?r b2"
    and b2: "bucket_balanced b2"
    using b0 by (auto simp: bucket_step_def Some Let_def bucket_balanced_def)
  from assms b2 set_jmap_set [of dm ?r b2] show ?thesis
    unfolding step by auto
qed

lemma fold_bucket_step_balanced:
  "\<forall>x \<in> set dm. bucket_balanced (snd x) \<Longrightarrow>
   \<forall>x \<in> set (fold (bucket_step pm om sm) keys dm). bucket_balanced (snd x)"
proof (induction keys arbitrary: dm)
  case Nil
  then show ?case by simp
next
  case (Cons k keys)
  from Cons.IH [OF bucket_step_balanced [OF Cons.prems]] show ?case by simp
qed

lemma fold_tag_buckets_get:
  "jmap_get (fold (\<lambda>stat. tag_buckets_step ag (tag stat)) stats mp) t =
     (if t \<in> tag ` set stats \<and> jmap_get (perTagProblemList ag) t \<noteq> None
      then Some (fold (bucket_step (perProblemMeta ag) (perProblemOrigin ag) (perProblemStatus ag))
                   (ptl_view (perTagProblemList ag) t) [])
      else jmap_get mp t)"
proof (induction stats arbitrary: mp)
  case Nil
  show ?case by simp
next
  case (Cons s stats)
  show ?case
    unfolding fold_simps Cons.IH
    by (auto simp: tag_buckets_step_def jmap_get_set ptl_view_def split: option.splits)
qed

lemma buckets_of_tag:
  "jmap_get (buildAllTagDifficultyBuckets ag) t =
     (if t \<in> tag ` set (tagArray ag) \<and> jmap_get (perTagProblemList ag) t \<noteq> None
      then Some (fold (bucket_step (perProblemMeta ag) (perProblemOrigin ag) (perProblemStatus ag))
                   (ptl_view (perTagProblemList ag) t) [])
      else None)"
  unfolding buildAllTagDifficultyBuckets_def fold_tag_buckets_get
  by (simp add: jmap_get_Nil)

lemma recommendation_map:
  "\<exists>c1 c2. computeRecommendationScores tags tra =
     map (\<lambda>t. t\<lparr>recommendScore := recommend_score c1 c2 t\<rparr>) tags"
proof (cases "length tags = 0")
  case True
  then show ?thesis by (simp add: computeRecommendationScores_def)
next
  case False
  then show ?thesis unfolding computeRecommendationScores_def Let_def by auto
qed

lemma failband_stat_fields:
  "tag (failband_stat ag s) = tag s \<and> totalAvailable (failband_stat ag s) = totalAvailable s \<and>
   solved (failband_stat ag s) = solved s \<and> solvedContest (failband_stat ag s) = solvedContest s \<and>
   solvedPractice (failband_stat ag s) = solvedPractice s \<and>
   maxSolved (failband_stat ag s) = maxSolved s \<and>
   nextTargetDifficulty (failband_stat ag s) = nextTargetDifficulty s"
  by (simp add: failband_stat_def Let_def split: option.splits)

lemma fresh_agg_maps:
  "perTagProblemList (fresh_agg subs ps) = perTagProblemList (aggregate subs ps) \<and>
   perProblemMeta (fresh_agg subs ps) = perProblemMeta (aggregate subs ps) \<and>
   perProblemOrigin (fresh_agg subs ps) = perProblemOrigin (aggregate subs ps) \<and>
   perProblemStatus (fresh_agg subs ps) = perProblemStatus (aggregate subs ps) \<and>
   tagRatingsAll (fresh_agg subs ps) = tagRatingsAll (aggregate subs ps) \<and>
   solvedProblems (fresh_agg subs ps) = solvedProblems (aggregate subs ps)"
  by (simp add: fresh_agg_def Let_def computeFailedDifficultyBand_def)

lemma fresh_agg_tagArray:
  "\<exists>f. tagArray (fresh_agg subs ps) = map f (tagArray (aggregate subs ps)) \<and>
       (\<forall>s. tag (f s) = tag s \<and> totalAvailable (f s) = totalAvailable s \<and>
            solved (f s) = solved s \<and> solvedContest (f s) = solvedContest s \<and>
            solvedPractice (f s) = solvedPractice s \<and> maxSolved (f s) = maxSolved s \<and>
            nextTargetDifficulty (f s) = nextTargetDifficulty s)"
proof -
  let ?ag = "aggregate subs ps"
  obtain c1 c2 where r: "computeRecommendationScores (tagArray ?ag) (tagRatingsAll ?ag) =
      map (\<lambda>t. t\<lparr>recommendScore := recommend_score c1 c2 t\<rparr>) (tagArray ?ag)"
    using recommendation_map by blast
  let ?ag1 = "?ag\<lparr>tagArray := computeRecommendationScores (tagArray ?ag) (tagRatingsAll ?ag)\<rparr>"
  let ?f = "\<lambda>s. failband_stat ?ag1 (s\<lparr>recommendScore := recommend_score c1 c2 s\<rparr>)"
  have "tagArray (fresh_agg subs ps) = map ?f (tagArray ?ag)"
    by (simp add: fresh_agg_def Let_def computeFailedDifficultyBand_def r)
  moreover have "\<forall>s. tag (?f s) = tag s \<and> totalAvailable (?f s) = totalAvailable s \<and>
            solved (?f s) = solved s \<and> solvedContest (?f s) = solvedContest s \<and>
            solvedPractice (?f s) = solvedPractice s \<and> maxSolved (?f s) = maxSolved s \<and>
            nextTargetDifficulty (?f s) = nextTargetDifficulty s"
    by (simp add: failband_stat_fields)
  ultimately show ?thesis by blast
qed

lemma aggregate_ptl:
  "perTagProblemList (aggregate subs ps) =
     ru_perTagProblemList (build_rollup (classify (ix_probIndex (build_index ps)) subs)
                             (ix_perProblemMeta (build_index ps)))"
  by (simp add: aggregate_def Let_def)

lemma fst_image_jmap_set: "fst ` set (jmap_set m k v) = insert k (fst ` set m)"
  using fst_jmap_set [of m k v] by simp

lemma build_rollup_ptl_keys:
  "set (map fst (ru_tagStats (build_rollup cl pm))) \<subseteq>
   set (map fst (ru_perTagProblemList (build_rollup cl pm)))"
proof -
  have step: "set (map fst (ru_tagStats ru)) \<subseteq> set (map fst (ru_perTagProblemList ru)) \<Longrightarrow>
      set (map fst (ru_tagStats (tag_step key rating st og t ru))) \<subseteq>
      set (map fst (ru_perTagProblemList (tag_step key rating st og t ru)))"
    for key rating st og t ru
    unfolding tag_step_tagStats
    by (auto simp: tag_step_def Let_def fst_image_jmap_set)
  have inner: "set (map fst (ru_tagStats ru)) \<subseteq> set (map fst (ru_perTagProblemList ru)) \<Longrightarrow>
      set (map fst (ru_tagStats (fold (tag_step key rating st og) ts ru))) \<subseteq>
      set (map fst (ru_perTagProblemList (fold (tag_step key rating st og) ts ru)))"
    for key rating st og ts ru
  proof (induction ts arbitrary: ru)
    case Nil
    then show ?case by simp
  next
    case (Cons t ts)
    from Cons.IH [OF step [OF Cons.prems]] show ?case by simp
  qed
  have outer: "set (map fst (ru_tagStats ru)) \<subseteq> set (map fst (ru_perTagProblemList ru)) \<Longrightarrow>
      set (map fst (ru_tagStats (fold (problem_step cl) ms ru))) \<subseteq>
      set (map fst (ru_perTagProblemList (fold (problem_step cl) ms ru)))" for ms ru
  proof (induction ms arbitrary: ru)
    case Nil
    then show ?case by simp
  next
    case (Cons km ms)
    have "set (map fst (ru_tagStats (problem_step cl km ru))) \<subseteq>
          set (map fst (ru_perTagProblemList (problem_step cl km ru)))"
      unfolding problem_step_def Let_def by (rule inner [OF Cons.prems])
    from Cons.IH [OF this] show ?case by simp
  qed
  show ?thesis unfolding build_rollup_def by (rule outer) simp
qed

text \<open>
  What \<^verbatim>\<open>aggregate\<close> returns for a tag statistic: its tag has a key list, the list
  is the keys of the catalog problems carrying the tag when the index has no repeated key,
  and \<open>totalAvailable\<close> counts the (problem, tag) pairs.
\<close>

lemma aggregate_stat_facts:
  assumes "s \<in> set (tagArray (aggregate subs ps))"
  shows "jmap_get (perTagProblemList (aggregate subs ps)) (tag s) \<noteq> None \<and>
         ptl_view (perTagProblemList (aggregate subs ps)) (tag s) =
           tagged_keys (perProblemMeta (aggregate subs ps)) (tag s) \<and>
         totalAvailable s =
           sum_list (map (\<lambda>km. count_list (meta_tags (snd km)) (tag s))
                      (perProblemMeta (aggregate subs ps)))"
proof -
  let ?cl = "classify (ix_probIndex (build_index ps)) subs"
  let ?pm = "ix_perProblemMeta (build_index ps)"
  let ?ru = "build_rollup ?cl ?pm"
  from assms obtain x where x: "x \<in> set (ru_tagStats ?ru)"
    and s: "s = post_pass (tagRatingsAll (aggregate subs ps)) (snd x)"
    unfolding tagArray_aggregate by auto
  have t: "tag s = tag (snd x)" and ta: "totalAvailable s = totalAvailable (snd x)"
    unfolding s by (simp_all add: post_pass_counts)
  have key: "tag (snd x) = fst x" using x build_rollup_tag by blast
  have get: "jmap_get (ru_tagStats ?ru) (tag s) = Some (snd x)"
    unfolding t using x by (rule build_rollup_entry)
  have "fst x \<in> set (map fst (ru_tagStats ?ru))" using x by simp
  then have "tag s \<in> set (map fst (ru_perTagProblemList ?ru))"
    using build_rollup_ptl_keys [of ?cl ?pm] t key by auto
  then have c1: "jmap_get (perTagProblemList (aggregate subs ps)) (tag s) \<noteq> None"
    unfolding aggregate_ptl jmap_get_None by simp
  have c2: "ptl_view (perTagProblemList (aggregate subs ps)) (tag s) =
           tagged_keys (perProblemMeta (aggregate subs ps)) (tag s)"
    unfolding aggregate_ptl aggregate_meta
    by (rule build_rollup_ptl [OF build_index_keys_distinct])
  have "total_view (ru_tagStats ?ru) (tag s) = totalAvailable s"
    by (simp add: total_view_def get ta)
  then have c3: "totalAvailable s =
           sum_list (map (\<lambda>km. count_list (meta_tags (snd km)) (tag s))
                      (perProblemMeta (aggregate subs ps)))"
    unfolding aggregate_meta build_rollup_total by simp
  from c1 c2 c3 show ?thesis by blast
qed

lemma tagged_keys_have_meta:
  "filter (\<lambda>k. jmap_get pm k \<noteq> None) (tagged_keys pm t) = tagged_keys pm t"
  unfolding jmap_get_None by (auto simp: tagged_keys_def filter_id_conv)

text \<open>
  C6 (as amended). For every tag statistic of the aggregate that is serialised,
  \<^verbatim>\<open>buildAllTagDifficultyBuckets\<close> has a bucket map for the tag; in every bucket of
  it \<open>total\<close> is the sum of the four categories; and if no catalog problem lists a tag
  twice, the totals of the tag's buckets add up to the tag's \<open>totalAvailable\<close>.
\<close>

theorem bucket_totals:
  assumes "s \<in> set (tagArray (fresh_agg subs ps))"
  shows "\<exists>diffMap.
           jmap_get (buildAllTagDifficultyBuckets (fresh_agg subs ps)) (tag s) = Some diffMap \<and>
           (\<forall>rb \<in> set diffMap.
              b_total (snd rb) = b_solvedContest (snd rb) + b_solvedPractice (snd rb) +
                                 b_failedContest (snd rb) + b_unsolved (snd rb)) \<and>
           ((\<forall>p \<in> set (problems ps). distinct (meta_tags (meta_of p))) \<longrightarrow>
              bucket_sum diffMap = totalAvailable s)"
proof -
  let ?ag = "aggregate subs ps"
  let ?fr = "fresh_agg subs ps"
  obtain f where f: "tagArray ?fr = map f (tagArray ?ag)"
    and tf: "\<And>x. tag (f x) = tag x" and af: "\<And>x. totalAvailable (f x) = totalAvailable x"
    using fresh_agg_tagArray [of subs ps] by blast
  from assms f obtain s0 where s0: "s0 \<in> set (tagArray ?ag)" and s: "s = f s0" by auto
  have t: "tag s = tag s0" and ta: "totalAvailable s = totalAvailable s0"
    unfolding s by (simp_all add: tf af)
  note facts = aggregate_stat_facts [OF s0, folded t]
  let ?dm = "fold (bucket_step (perProblemMeta ?fr) (perProblemOrigin ?fr) (perProblemStatus ?fr))
               (ptl_view (perTagProblemList ?fr) (tag s)) []"
  have mem: "tag s \<in> tag ` set (tagArray ?fr)" using assms by blast
  have get: "jmap_get (buildAllTagDifficultyBuckets ?fr) (tag s) = Some ?dm"
    unfolding buckets_of_tag using mem facts by (simp add: fresh_agg_maps)
  have bal: "\<forall>rb \<in> set ?dm. bucket_balanced (snd rb)"
    by (rule fold_bucket_step_balanced) simp
  have sum: "bucket_sum ?dm = totalAvailable s"
    if d: "\<forall>p \<in> set (problems ps). distinct (meta_tags (meta_of p))"
  proof -
    have "\<forall>km \<in> set (perProblemMeta ?ag). distinct (meta_tags (snd km))"
      unfolding aggregate_meta using build_index_metas [of _ ps] d by fastforce
    then have "totalAvailable s0 = length (tagged_keys (perProblemMeta ?ag) (tag s))"
      using facts by (simp add: distinct_tags_total)
    moreover have "bucket_sum ?dm = length (tagged_keys (perProblemMeta ?ag) (tag s))"
      unfolding fold_bucket_step_sum using facts
      by (simp add: fresh_agg_maps tagged_keys_have_meta bucket_sum_def del: not_None_eq)
    ultimately show ?thesis using ta by simp
  qed
  from get bal sum show ?thesis
    unfolding bucket_balanced_def by blast
qed

lemma ex_fresh_tags: "map tag (tagArray (fresh_agg [ex_wrong_answer] ex_catalog)) = [''dp'']"
  by code_simp

theorem bucket_totals_witness:
  "hd (tagArray (fresh_agg [ex_wrong_answer] ex_catalog)) \<in> set (tagArray (fresh_agg [ex_wrong_answer] ex_catalog)) \<and>
   distinct (meta_tags (meta_of ex_problem)) \<and>
   map_option (list_all (\<lambda>rb. bucket_balanced (snd rb)))
     (jmap_get (buildAllTagDifficultyBuckets (fresh_agg [ex_wrong_answer] ex_catalog))
        (tag (hd (tagArray (fresh_agg [ex_wrong_answer] ex_catalog))))) = Some True \<and>
   map_option bucket_sum
     (jmap_get (buildAllTagDifficultyBuckets (fresh_agg [ex_wrong_answer] ex_catalog))
        (tag (hd (tagArray (fresh_agg [ex_wrong_answer] ex_catalog))))) =
     Some (totalAvailable (hd (tagArray (fresh_agg [ex_wrong_answer] ex_catalog))))"
proof -
  have "tagArray (fresh_agg [ex_wrong_answer] ex_catalog) \<noteq> []"
    using ex_fresh_tags by auto
  then have h: "hd (tagArray (fresh_agg [ex_wrong_answer] ex_catalog)) \<in>
                set (tagArray (fresh_agg [ex_wrong_answer] ex_catalog))"
    by simp
  have d: "distinct (meta_tags (meta_of ex_problem))"
    by (simp add: ex_problem_def meta_of_def)
  then have d': "\<forall>p \<in> set (problems ex_catalog). distinct (meta_tags (meta_of p))"
    by (simp add: ex_catalog_def)
  from bucket_totals [OF h] d' obtain diffMap where
    "jmap_get (buildAllTagDifficultyBuckets (fresh_agg [ex_wrong_answer] ex_catalog))
        (tag (hd (tagArray (fresh_agg [ex_wrong_answer] ex_catalog)))) = Some diffMap"
    and "list_all (\<lambda>rb. bucket_balanced (snd rb)) diffMap"
    and "bucket_sum diffMap = totalAvailable (hd (tagArray (fresh_agg [ex_wrong_answer] ex_catalog)))"
    unfolding list_all_iff bucket_balanced_def by blast
  with h d show ?thesis by simp
qed

theorem repeated_tag_breaks_bucket_total:
  "map tag (tagArray (fresh_agg [] ex_catalog_dup)) = [''dp''] \<and>
   map totalAvailable (tagArray (fresh_agg [] ex_catalog_dup)) = [2] \<and>
   map_option bucket_sum
     (jmap_get (buildAllTagDifficultyBuckets (fresh_agg [] ex_catalog_dup)) ''dp'') = Some 1"
  by code_simp

lemma index_step_meta:
  "jmap_get (ix_perProblemMeta (index_step p ix)) (probKey (Some p)) = Some (meta_of p)"
  by (simp add: index_step_def Let_def jmap_get_set del: probKey.simps)

lemma meta_of_rating_nonzero: "meta_rating (meta_of p) \<noteq> Some 0"
  by (cases "p_rating p") (simp_all add: meta_of_def)

lemma aggregate_ratings_nonzero:
  "km \<in> set (perProblemMeta (aggregate subs ps)) \<Longrightarrow> meta_rating (snd km) \<noteq> Some 0"
  unfolding aggregate_meta using build_index_metas [of km ps] meta_of_rating_nonzero by auto

lemma stat_update_unrated: "maxSolved (stat_update None st og s) = maxSolved s"
  by (simp add: stat_update_def solved_update_def Let_def)

lemma tag_step_unrated:
  "ru_tagRatingsAll (tag_step key None st og t' ru) = ru_tagRatingsAll ru \<and>
   maxSolved_view (ru_tagStats (tag_step key None st og t' ru)) t = maxSolved_view (ru_tagStats ru) t"
proof -
  have "ru_tagRatingsAll (tag_step key None st og t' ru) = ru_tagRatingsAll ru"
    by (simp add: tag_step_def Let_def)
  moreover have "maxSolved_view (ru_tagStats (tag_step key None st og t' ru)) t =
                 maxSolved_view (ru_tagStats ru) t"
    unfolding tag_step_tagStats maxSolved_view_def
    by (simp add: jmap_get_set stat_update_unrated new_stat_def split: option.splits)
  ultimately show ?thesis by simp
qed

lemma fold_tag_step_unrated:
  "ru_tagRatingsAll (fold (tag_step key None st og) ts ru) = ru_tagRatingsAll ru \<and>
   maxSolved_view (ru_tagStats (fold (tag_step key None st og) ts ru)) t =
     maxSolved_view (ru_tagStats ru) t"
  by (induction ts arbitrary: ru) (simp_all add: tag_step_unrated)

lemma failband_step_unrated:
  "jmap_get pm key = Some m \<Longrightarrow> meta_rating m = None \<Longrightarrow> failband_step pm sm key mm = mm"
  by (simp add: failband_step_def split: option.splits)

lemma bucket_step_unrated:
  assumes "jmap_get pm key = Some m" and "meta_rating m = None"
  shows "\<exists>b. bucket_step pm om sm key dm = jmap_set dm 0 b \<and>
             b_total b = (case jmap_get dm 0 of None \<Rightarrow> 0 | Some b0 \<Rightarrow> b_total b0) + 1"
  using assms
  by (auto simp: bucket_step_def Let_def rating_or_zero_def new_bucket_def split: option.splits)

text \<open>
  C10. A catalog problem whose rating is missing or 0 is stored by the index with the
  rating null (and no stored rating is 0). Processing a problem stored with the rating null
  leaves every tag's rated-ratings set and every tag's \<open>maxSolved\<close> as they were, leaves
  the running fail band as it was, and counts the problem in the bucket of rating 0.
\<close>

theorem unrated_problem_normalised:
  assumes "p_rating p = None \<or> p_rating p = Some 0"
  shows "meta_rating (meta_of p) = None \<and>
         jmap_get (ix_perProblemMeta (index_step p ix)) (probKey (Some p)) = Some (meta_of p) \<and>
         (\<forall>km \<in> set (perProblemMeta (aggregate subs ps)). meta_rating (snd km) \<noteq> Some 0) \<and>
         ru_tagRatingsAll (problem_step cl (probKey (Some p), meta_of p) ru) = ru_tagRatingsAll ru \<and>
         maxSolved_view (ru_tagStats (problem_step cl (probKey (Some p), meta_of p) ru)) t =
           maxSolved_view (ru_tagStats ru) t \<and>
         (jmap_get pm (probKey (Some p)) = Some (meta_of p) \<longrightarrow>
            failband_step pm sm (probKey (Some p)) mm = mm \<and>
            (\<exists>b. bucket_step pm om sm (probKey (Some p)) dm = jmap_set dm 0 b \<and>
                 b_total b = (case jmap_get dm 0 of None \<Rightarrow> 0 | Some b0 \<Rightarrow> b_total b0) + 1))"
proof -
  have r: "meta_rating (meta_of p) = None"
    using assms by (auto simp: meta_of_def)
  have c3: "\<forall>km \<in> set (perProblemMeta (aggregate subs ps)). meta_rating (snd km) \<noteq> Some 0"
    using aggregate_ratings_nonzero by blast
  have c4: "ru_tagRatingsAll (problem_step cl (probKey (Some p), meta_of p) ru) = ru_tagRatingsAll ru"
    and c5: "maxSolved_view (ru_tagStats (problem_step cl (probKey (Some p), meta_of p) ru)) t =
           maxSolved_view (ru_tagStats ru) t"
    by (simp_all add: problem_step_def Let_def r fold_tag_step_unrated del: probKey.simps)
  have c6: "failband_step pm sm (probKey (Some p)) mm = mm"
    if "jmap_get pm (probKey (Some p)) = Some (meta_of p)"
    using that r by (rule failband_step_unrated)
  have c7: "\<exists>b. bucket_step pm om sm (probKey (Some p)) dm = jmap_set dm 0 b \<and>
                 b_total b = (case jmap_get dm 0 of None \<Rightarrow> 0 | Some b0 \<Rightarrow> b_total b0) + 1"
    if "jmap_get pm (probKey (Some p)) = Some (meta_of p)"
    using that r by (rule bucket_step_unrated)
  from r index_step_meta [of p ix] c3 c4 c5 c6 c7 show ?thesis by blast
qed

theorem unrated_problem_normalised_witness:
  "(p_rating ex_problem_zero = None \<or> p_rating ex_problem_zero = Some 0) \<and>
   meta_rating (meta_of ex_problem_zero) = None \<and>
   jmap_get [(''A-1'', meta_of ex_problem_zero)] (probKey (Some ex_problem_zero)) =
     Some (meta_of ex_problem_zero) \<and>
   failband_step [(''A-1'', meta_of ex_problem_zero)] [] (probKey (Some ex_problem_zero))
     (None, None) = (None, None) \<and>
   (\<exists>b. bucket_step [(''A-1'', meta_of ex_problem_zero)] [] [] (probKey (Some ex_problem_zero)) [] =
           jmap_set [] 0 b \<and> b_total b = 1)"
proof -
  have h: "p_rating ex_problem_zero = None \<or> p_rating ex_problem_zero = Some 0"
    by (simp add: ex_problem_zero_def)
  have g: "jmap_get [(''A-1'', meta_of ex_problem_zero)] (probKey (Some ex_problem_zero)) =
     Some (meta_of ex_problem_zero)"
    by (simp add: jmap_get_def ex_problem_zero_def ex_problem_def contest_or_set_def)
  from unrated_problem_normalised [OF h, of _ _ _ _ _ _ "[(''A-1'', meta_of ex_problem_zero)]"
      "[]" "(None, None)" "[]" "[]"] h g
  show ?thesis by (simp add: jmap_get_Nil)
qed

lemma inter_bucket_step_eq: "inter_bucket_step = bucket_step"
  by (intro ext) (simp add: inter_bucket_step_def bucket_step_def)

lemma filter_all_Cons:
  "filter (\<lambda>k. list_all (\<lambda>t. P t k) ts) (filter (P t) c) = filter (\<lambda>k. list_all (\<lambda>t. P t k) (t # ts)) c"
  by (induction c) auto

lemma intersect_loop_Some:
  "keys_of (intersect_loop ptl ts (Some c)) =
     (if list_all (\<lambda>t. jmap_get ptl t \<noteq> None) ts
      then filter (\<lambda>k. list_all (\<lambda>t. jset_has (ptl_view ptl t) k) ts) c
      else [])"
proof (induction ts arbitrary: c)
  case Nil
  show ?case by (simp add: keys_of_def)
next
  case (Cons t ts)
  show ?case
  proof (cases "jmap_get ptl t")
    case None
    then show ?thesis by (simp add: keys_of_def)
  next
    case (Some keys)
    let ?nxt = "filter (\<lambda>val. jset_has keys val) c"
    have view: "ptl_view ptl t = keys" by (simp add: ptl_view_def Some)
    have ff: "filter (\<lambda>k. list_all (\<lambda>t. jset_has (ptl_view ptl t) k) ts) ?nxt =
              filter (\<lambda>k. list_all (\<lambda>t. jset_has (ptl_view ptl t) k) (t # ts)) c"
      using filter_all_Cons [of "\<lambda>t k. jset_has (ptl_view ptl t) k" ts t c] by (simp add: view)
    show ?thesis
    proof (cases "?nxt = []")
      case True
      have "filter (\<lambda>k. list_all (\<lambda>t. jset_has (ptl_view ptl t) k) (t # ts)) c = []"
        unfolding ff [symmetric] True by simp
      then show ?thesis using True Some by (simp add: keys_of_def Let_def)
    next
      case False
      then show ?thesis
        using Cons.IH [of ?nxt] Some ff by (simp add: Let_def)
    qed
  qed
qed

lemma intersect_loop_keys:
  assumes "tags \<noteq> []"
  shows "keys_of (intersect_loop ptl tags None) =
     (if list_all (\<lambda>t. jmap_get ptl t \<noteq> None) tags then common_keys ptl tags else [])"
proof -
  from assms obtain t ts where tags: "tags = t # ts" by (cases tags) auto
  show ?thesis
  proof (cases "jmap_get ptl t")
    case None
    then show ?thesis by (simp add: tags keys_of_def)
  next
    case (Some keys)
    have view: "ptl_view ptl t = keys" by (simp add: ptl_view_def Some)
    have self: "filter (\<lambda>val. jset_has keys val) keys = keys"
      by (simp add: jset_has_def)
    have ff: "filter (\<lambda>k. list_all (\<lambda>t. jset_has (ptl_view ptl t) k) ts) keys =
              filter (\<lambda>k. list_all (\<lambda>t. jset_has (ptl_view ptl t) k) (t # ts)) keys"
      using filter_all_Cons [of "\<lambda>t k. jset_has (ptl_view ptl t) k" ts t keys]
      by (simp add: view self)
    show ?thesis
    proof (cases "keys = []")
      case True
      then show ?thesis using Some by (simp add: tags keys_of_def common_keys_def view)
    next
      case False
      then show ?thesis
        using Some intersect_loop_Some [of ptl ts keys] ff
        by (simp add: tags common_keys_def view)
    qed
  qed
qed

lemma common_keys_set:
  "tags \<noteq> [] \<Longrightarrow> set (common_keys ptl tags) = (\<Inter>t \<in> set tags. set (ptl_view ptl t))"
  by (cases tags) (auto simp: common_keys_def list_all_iff jset_has_def)

text \<open>
  C5. For a non-empty list of tags, \<^verbatim>\<open>buildIntersectionBuckets\<close> returns the empty
  bucket map if a listed tag has no problem set; otherwise it returns the buckets that the
  loop body of the per-tag builder (\<open>bucket_step\<close>) builds over the common keys, whose
  set is the intersection of the listed tags' key sets. In particular the map is empty
  when the intersection is empty, and when every common key has an entry in the problem
  index the bucket totals count every common key once.
\<close>

theorem intersection_buckets:
  assumes "tags \<noteq> []"
  shows "buildIntersectionBuckets tags ag =
           (if list_all (\<lambda>t. jmap_get (perTagProblemList ag) t \<noteq> None) tags
            then fold (bucket_step (perProblemMeta ag) (perProblemOrigin ag) (perProblemStatus ag))
                   (common_keys (perTagProblemList ag) tags) []
            else []) \<and>
         set (common_keys (perTagProblemList ag) tags) =
           (\<Inter>t \<in> set tags. set (ptl_view (perTagProblemList ag) t)) \<and>
         (common_keys (perTagProblemList ag) tags = [] \<longrightarrow> buildIntersectionBuckets tags ag = []) \<and>
         (list_all (\<lambda>t. jmap_get (perTagProblemList ag) t \<noteq> None) tags \<and>
          list_all (\<lambda>k. jmap_get (perProblemMeta ag) k \<noteq> None)
            (common_keys (perTagProblemList ag) tags) \<longrightarrow>
            bucket_sum (buildIntersectionBuckets tags ag) =
              length (common_keys (perTagProblemList ag) tags))"
proof -
  let ?R = "intersect_loop (perTagProblemList ag) tags None"
  let ?step = "bucket_step (perProblemMeta ag) (perProblemOrigin ag) (perProblemStatus ag)"
  have "buildIntersectionBuckets tags ag = fold ?step (keys_of ?R) []"
    by (cases ?R) (auto simp: buildIntersectionBuckets_def keys_of_def inter_bucket_step_eq)
  then have main: "buildIntersectionBuckets tags ag =
           (if list_all (\<lambda>t. jmap_get (perTagProblemList ag) t \<noteq> None) tags
            then fold ?step (common_keys (perTagProblemList ag) tags) []
            else [])"
    unfolding intersect_loop_keys [OF assms] by simp
  then have empty: "common_keys (perTagProblemList ag) tags = [] \<longrightarrow>
      buildIntersectionBuckets tags ag = []"
    by simp
  have count: "bucket_sum (buildIntersectionBuckets tags ag) =
              length (common_keys (perTagProblemList ag) tags)"
    if "list_all (\<lambda>t. jmap_get (perTagProblemList ag) t \<noteq> None) tags"
      and "list_all (\<lambda>k. jmap_get (perProblemMeta ag) k \<noteq> None)
            (common_keys (perTagProblemList ag) tags)"
  proof -
    have "filter (\<lambda>k. jmap_get (perProblemMeta ag) k \<noteq> None)
            (common_keys (perTagProblemList ag) tags) = common_keys (perTagProblemList ag) tags"
      using that(2) unfolding list_all_iff filter_id_conv by blast
    then have "bucket_sum (fold ?step (common_keys (perTagProblemList ag) tags) []) =
               length (common_keys (perTagProblemList ag) tags)"
      unfolding fold_bucket_step_sum by (simp add: bucket_sum_def del: not_None_eq)
    then show ?thesis
      unfolding main using that(1) by simp
  qed
  from main common_keys_set [OF assms] empty count show ?thesis by blast
qed

theorem intersection_buckets_witness:
  "[''dp'', ''greedy''] \<noteq> [] \<and>
   common_keys (perTagProblemList (aggregate [] ex_catalog3)) [''dp'', ''greedy''] = [''A-1'', ''A-3''] \<and>
   buildIntersectionBuckets [''dp'', ''greedy''] (aggregate [] ex_catalog3) =
     fold (bucket_step (perProblemMeta (aggregate [] ex_catalog3))
             (perProblemOrigin (aggregate [] ex_catalog3))
             (perProblemStatus (aggregate [] ex_catalog3))) [''A-1'', ''A-3''] []"
proof -
  have h: "[''dp'', ''greedy''] \<noteq> ([] :: string list)" by simp
  have k: "common_keys (perTagProblemList (aggregate [] ex_catalog3)) [''dp'', ''greedy''] =
           [''A-1'', ''A-3'']"
    by code_simp
  have a: "list_all (\<lambda>t. jmap_get (perTagProblemList (aggregate [] ex_catalog3)) t \<noteq> None)
             [''dp'', ''greedy'']"
    by code_simp
  from intersection_buckets [OF h, of "aggregate [] ex_catalog3"] k a show ?thesis
    by simp
qed

lemma digit_char_props:
  assumes "0 \<le> d" and "d < 10"
  shows "is_digit (digit_char d)" and "digit_val (digit_char d) = d"
proof -
  have "(48 + d) mod 256 = 48 + d" using assms by simp
  then have oc: "(of_char (digit_char d) :: int) = 48 + d"
    by (simp add: digit_char_def)
  show "is_digit (digit_char d)" using assms by (simp add: is_digit_def oc)
  show "digit_val (digit_char d) = d" by (simp add: digit_val_def oc)
qed

lemma show_digits_digits: "0 \<le> i \<Longrightarrow> list_all is_digit (show_digits i) \<and> show_digits i \<noteq> []"
proof (induction i rule: show_digits.induct)
  case (1 i)
  show ?case
  proof (cases "i < 10")
    case True
    with 1 show ?thesis by (subst (1 2) show_digits.simps) (simp add: digit_char_props)
  next
    case False
    with 1 show ?thesis by (subst (1 2) show_digits.simps) (simp add: digit_char_props)
  qed
qed

lemma digits_value_snoc: "digits_value acc (xs @ [c]) = digits_value acc xs * 10 + digit_val c"
  by (induction xs arbitrary: acc) simp_all

lemma digits_value_show_digits: "0 \<le> i \<Longrightarrow> digits_value 0 (show_digits i) = i"
proof (induction i rule: show_digits.induct)
  case (1 i)
  show ?case
  proof (cases "i < 10")
    case True
    with 1 show ?thesis by (subst show_digits.simps) (simp add: digit_char_props)
  next
    case False
    with 1 show ?thesis
      by (subst show_digits.simps) (simp add: digits_value_snoc digit_char_props)
  qed
qed

lemma takeWhile_all: "list_all P xs \<Longrightarrow> takeWhile P xs = xs"
  by (induction xs) simp_all

lemma digit_not_other:
  assumes "is_digit c"
  shows "\<not> is_space c" and "c \<noteq> CHR ''-''" and "c \<noteq> CHR ''+''"
proof -
  show "\<not> is_space c" using assms by (auto simp: is_digit_def is_space_def)
  have "(of_char (CHR ''-'') :: int) = 45" and "(of_char (CHR ''+'') :: int) = 43" by simp_all
  with assms show "c \<noteq> CHR ''-''" and "c \<noteq> CHR ''+''" by (auto simp: is_digit_def)
qed

lemma parseInt10_digits:
  assumes "list_all is_digit ds" and "ds \<noteq> []"
  shows "parseInt10 ds = Some (digits_value 0 ds)"
    and "parseInt10 (CHR ''-'' # ds) = Some (- digits_value 0 ds)"
proof -
  obtain c cs where ds: "ds = c # cs" using assms(2) by (cases ds) auto
  have c: "is_digit c" using assms(1) ds by simp
  have ns: "\<not> is_space c" and nm: "c \<noteq> CHR ''-''" and np: "c \<noteq> CHR ''+''"
    using digit_not_other [OF c] by blast+
  have tw: "takeWhile is_digit ds = ds" using assms(1) by (rule takeWhile_all)
  have dw: "dropWhile is_space ds = ds" using ns by (simp add: ds)
  have hd: "hd ds \<noteq> CHR ''-''" "hd ds \<noteq> CHR ''+''" using nm np by (simp_all add: ds)
  show "parseInt10 ds = Some (digits_value 0 ds)"
    unfolding parseInt10_def Let_def dw using hd assms(2) by (simp add: tw)
  have "\<not> is_space CHR ''-''" by (simp add: is_space_def)
  then have dw': "dropWhile is_space (CHR ''-'' # ds) = CHR ''-'' # ds" by simp
  show "parseInt10 (CHR ''-'' # ds) = Some (- digits_value 0 ds)"
    unfolding parseInt10_def Let_def dw' using assms(2) by (simp add: tw)
qed

lemma parseInt10_show_int: "parseInt10 (show_int i) = Some i"
proof (cases "i < 0")
  case True
  then have nn: "0 \<le> - i" by simp
  have d: "list_all is_digit (show_digits (- i))" "show_digits (- i) \<noteq> []"
    using show_digits_digits [OF nn] by blast+
  have "parseInt10 (CHR ''-'' # show_digits (- i)) = Some (- (- i))"
    unfolding parseInt10_digits(2) [OF d] digits_value_show_digits [OF nn] ..
  with True show ?thesis by (simp add: show_int_def)
next
  case False
  then have nn: "0 \<le> i" by simp
  have d: "list_all is_digit (show_digits i)" "show_digits i \<noteq> []"
    using show_digits_digits [OF nn] by blast+
  have "parseInt10 (show_digits i) = Some i"
    unfolding parseInt10_digits(1) [OF d] digits_value_show_digits [OF nn] ..
  with False show ?thesis by (simp add: show_int_def)
qed

lemma show_int_inj:
  assumes "show_int i = show_int j"
  shows "i = j"
proof -
  have "Some i = parseInt10 (show_int i)" by (simp only: parseInt10_show_int)
  also have "\<dots> = parseInt10 (show_int j)" by (simp only: assms)
  also have "\<dots> = Some j" by (simp only: parseInt10_show_int)
  finally show ?thesis by simp
qed

lemma show_int_not_proto: "show_int i \<noteq> ''__proto__''"
proof
  assume "show_int i = ''__proto__''"
  then have "parseInt10 ''__proto__'' = Some i" by (simp only: parseInt10_show_int [of i, symmetric])
  moreover have "parseInt10 ''__proto__'' = None"
    by (simp add: parseInt10_def Let_def is_space_def is_digit_def)
  ultimately show False by simp
qed

lemma rebuild_key_show_int:
  "(if show_int i = ''0'' then Some 0 else parseInt10 (show_int i)) = Some i"
proof (cases "show_int i = ''0''")
  case True
  have "parseInt10 ''0'' = Some 0"
    by (simp add: parseInt10_def Let_def is_space_def is_digit_def digit_val_def)
  moreover have "parseInt10 ''0'' = Some i"
    by (simp only: True [symmetric] parseInt10_show_int)
  ultimately show ?thesis using True by simp
next
  case False
  then show ?thesis by (simp add: parseInt10_show_int)
qed

lemma map_of_insert_index:
  "map_of m k = None \<Longrightarrow> map_of (insert_index n k v m) = (map_of m)(k \<mapsto> v)"
  by (induction m) (auto simp: fun_eq_iff split: if_splits)

lemma keys_insert_index: "set (map fst (insert_index n k v m)) = insert k (set (map fst m))"
proof (induction m)
  case Nil
  show ?case by simp
next
  case (Cons x m)
  obtain a b where x: "x = (a, b)" by (cases x)
  show ?case using Cons.IH unfolding x by (simp add: insert_commute)
qed

lemma distinct_insert_index:
  "map_of m k = None \<Longrightarrow> distinct (map fst m) \<Longrightarrow> distinct (map fst (insert_index n k v m))"
proof (induction m)
  case Nil
  show ?case by simp
next
  case (Cons x m)
  have k: "fst x \<noteq> k" and none: "map_of m k = None"
    using Cons.prems(1) by (cases x; auto split: if_splits)+
  have "distinct (map fst (insert_index n k v m))"
    using Cons.IH [OF none] Cons.prems(2) by simp
  moreover have "fst x \<notin> set (map fst (insert_index n k v m))"
    unfolding keys_insert_index using k Cons.prems(2) by simp
  moreover have "k \<notin> set (map fst (x # m))"
    using Cons.prems(1) map_of_eq_None_iff [of "x # m" k] by simp
  ultimately show ?case using Cons.prems(2) by (cases x) auto
qed

lemma map_of_jobj_set:
  "map_of (jobj_set obj k v) = (if k = ''__proto__'' then map_of obj else (map_of obj)(k \<mapsto> v))"
proof (cases "map_of obj k")
  case None
  then show ?thesis
    by (auto simp: jobj_set_def map_of_insert_index fun_eq_iff map_add_def split: option.splits)
next
  case (Some old)
  then show ?thesis
    by (simp add: jobj_set_def map_of_jmap_set)
qed

lemma distinct_jobj_set:
  assumes "distinct (map fst obj)"
  shows "distinct (map fst (jobj_set obj k v))"
proof (cases "map_of obj k")
  case None
  then have "k \<notin> set (map fst obj)" using map_of_eq_None_iff [of obj k] by simp
  with None assms show ?thesis
    by (simp add: jobj_set_def distinct_insert_index)
next
  case (Some old)
  with assms show ?thesis
    by (simp add: jobj_set_def distinct_jmap_set)
qed

text \<open>Building an object, or a map, from a list whose keys are distinct.\<close>

lemma fold_jobj_set_lookup:
  assumes "distinct (map kf xs)" and "k \<noteq> ''__proto__''"
  shows "map_of (fold (\<lambda>x obj. jobj_set obj (kf x) (vf x)) xs init) k =
           (case find (\<lambda>x. kf x = k) xs of None \<Rightarrow> map_of init k | Some x \<Rightarrow> Some (vf x))"
  using assms(1)
proof (induction xs arbitrary: init)
  case Nil
  show ?case by simp
next
  case (Cons x xs)
  have d: "distinct (map kf xs)" using Cons.prems by simp
  show ?case
  proof (cases "kf x = k")
    case True
    then have "k \<notin> kf ` set xs" using Cons.prems by auto
    then have "find (\<lambda>x. kf x = k) xs = None" by (auto simp: find_None_iff)
    with True assms(2) show ?thesis
      using Cons.IH [OF d, of "jobj_set init (kf x) (vf x)"] by (simp add: map_of_jobj_set)
  next
    case False
    then show ?thesis
      using Cons.IH [OF d, of "jobj_set init (kf x) (vf x)"]
      by (auto simp: map_of_jobj_set split: option.splits)
  qed
qed

lemma fold_jobj_set_proto:
  "map_of (fold (\<lambda>x obj. jobj_set obj (kf x) (vf x)) xs init) ''__proto__'' = map_of init ''__proto__''"
  by (induction xs arbitrary: init) (simp_all add: map_of_jobj_set)

lemma fold_jobj_set_distinct:
  "distinct (map fst init) \<Longrightarrow>
   distinct (map fst (fold (\<lambda>x obj. jobj_set obj (kf x) (vf x)) xs init))"
  by (induction xs arbitrary: init) (simp_all add: distinct_jobj_set)

lemma fold_jmap_set_lookup:
  assumes "distinct (map kf xs)"
  shows "jmap_get (fold (\<lambda>x m. jmap_set m (kf x) (vf x)) xs init) k =
           (case find (\<lambda>x. kf x = k) xs of None \<Rightarrow> jmap_get init k | Some x \<Rightarrow> Some (vf x))"
  using assms
proof (induction xs arbitrary: init)
  case Nil
  show ?case by simp
next
  case (Cons x xs)
  have d: "distinct (map kf xs)" using Cons.prems by simp
  show ?case
  proof (cases "kf x = k")
    case True
    then have "k \<notin> kf ` set xs" using Cons.prems by auto
    then have "find (\<lambda>x. kf x = k) xs = None" by (auto simp: find_None_iff)
    with True show ?thesis
      using Cons.IH [OF d, of "jmap_set init (kf x) (vf x)"] by (simp add: jmap_get_set)
  next
    case False
    then show ?thesis
      using Cons.IH [OF d, of "jmap_set init (kf x) (vf x)"]
      by (auto simp: jmap_get_set split: option.splits)
  qed
qed

lemma fold_jmap_set_distinct:
  "distinct (map fst init) \<Longrightarrow>
   distinct (map fst (fold (\<lambda>x m. jmap_set m (kf x) (vf x)) xs init))"
  by (induction xs arbitrary: init) (simp_all add: distinct_jmap_set)

lemma find_fst_map_of:
  "find (\<lambda>x. fst x = k) xs = (case map_of xs k of None \<Rightarrow> None | Some v \<Rightarrow> Some (k, v))"
  by (induction xs) auto

lemma copy_bucket_id: "copy_bucket b = b"
  by (simp add: copy_bucket_def)

lemma bucket_object_lookup:
  assumes "distinct (map fst dm)"
  shows "map_of (bucket_object dm) (show_int r) = jmap_get dm r"
proof -
  have d: "distinct (map (\<lambda>db. show_int (fst db)) dm)"
    using assms show_int_inj by (auto simp: distinct_map inj_on_def)
  have f: "find (\<lambda>db. show_int (fst db) = show_int r) dm = find (\<lambda>db. fst db = r) dm"
    by (rule find_cong) (auto dest: show_int_inj)
  show ?thesis
    unfolding bucket_object_def
    using fold_jobj_set_lookup [OF d show_int_not_proto, where vf = "\<lambda>db. copy_bucket (snd db)"
        and init = "[]" and i1 = r]
    by (simp add: f find_fst_map_of copy_bucket_id jmap_get_def split: option.splits)
qed

lemma bucket_object_keys:
  assumes "distinct (map fst dm)" and "kb \<in> set (bucket_object dm)"
  shows "\<exists>r. fst kb = show_int r"
proof -
  have d: "distinct (map (\<lambda>db. show_int (fst db)) dm)"
    using assms(1) show_int_inj by (auto simp: distinct_map inj_on_def)
  have dk: "distinct (map fst (bucket_object dm))"
    unfolding bucket_object_def by (rule fold_jobj_set_distinct) simp
  have some: "map_of (bucket_object dm) (fst kb) = Some (snd kb)"
    using dk assms(2) by simp
  show ?thesis
  proof (cases "fst kb = ''__proto__''")
    case True
    have "map_of (bucket_object dm) ''__proto__'' = None"
      unfolding bucket_object_def fold_jobj_set_proto by simp
    with some True show ?thesis by simp
  next
    case False
    from fold_jobj_set_lookup [OF d False, where vf = "\<lambda>db. copy_bucket (snd db)" and init = "[]"] some
    obtain x where "find (\<lambda>db. show_int (fst db) = fst kb) dm = Some x"
      unfolding bucket_object_def by (auto split: option.splits)
    then have "show_int (fst x) = fst kb" by (auto simp: find_Some_iff)
    then show ?thesis by metis
  qed
qed

lemma rebuild_key_show_int': "rebuild_key (show_int r) = Some r"
  unfolding rebuild_key_def by (rule rebuild_key_show_int)

lemma rebuild_alt:
  "rebuildDiffMapFromSnapshot obj =
     fold (\<lambda>db m. jmap_set m (rebuild_key (fst db)) (copy_bucket (snd db))) obj []"
  by (simp add: rebuildDiffMapFromSnapshot_def rebuild_key_def)

text \<open>The buckets rebuilt from the serialised buckets are the buckets serialised.\<close>

lemma rebuild_bucket_object:
  assumes "distinct (map fst dm)"
  shows "jmap_get (rebuildDiffMapFromSnapshot (bucket_object dm)) (Some r) = jmap_get dm r"
    and "jmap_get (rebuildDiffMapFromSnapshot (bucket_object dm)) None = None"
proof -
  let ?obj = "bucket_object dm"
  have dk: "distinct (map fst ?obj)"
    unfolding bucket_object_def by (rule fold_jobj_set_distinct) simp
  have keys: "\<exists>r. fst kb = show_int r" if "kb \<in> set ?obj" for kb
    using assms that by (rule bucket_object_keys)
  have inj: "inj_on (\<lambda>kb. rebuild_key (fst kb)) (set ?obj)"
  proof (rule inj_onI)
    fix a b assume a: "a \<in> set ?obj" and b: "b \<in> set ?obj"
      and e: "rebuild_key (fst a) = rebuild_key (fst b)"
    from keys [OF a] keys [OF b] obtain i j where i: "fst a = show_int i" and j: "fst b = show_int j"
      by blast
    from e have "Some i = Some j" unfolding i j rebuild_key_show_int' .
    then have "i = j" by simp
    then have "fst a = fst b" by (simp add: i j)
    moreover from dk have "inj_on fst (set ?obj)" by (simp add: distinct_map)
    ultimately show "a = b" using a b by (auto dest: inj_onD)
  qed
  from dk have "distinct ?obj" by (simp add: distinct_map)
  with inj have d: "distinct (map (\<lambda>kb. rebuild_key (fst kb)) ?obj)"
    by (simp add: distinct_map)
  have lookup: "jmap_get (rebuildDiffMapFromSnapshot ?obj) K =
      (case find (\<lambda>kb. rebuild_key (fst kb) = K) ?obj of
         None \<Rightarrow> None | Some kb \<Rightarrow> Some (copy_bucket (snd kb)))" for K
    unfolding rebuild_alt fold_jmap_set_lookup [OF d] jmap_get_Nil ..
  have f: "find (\<lambda>kb. rebuild_key (fst kb) = Some r) ?obj = find (\<lambda>kb. fst kb = show_int r) ?obj"
  proof (rule find_cong [OF refl])
    fix kb assume "kb \<in> set ?obj"
    from keys [OF this] obtain i where i: "fst kb = show_int i" by blast
    have "(show_int i = show_int r) = (i = r)" using show_int_inj [of i r] by blast
    then show "(rebuild_key (fst kb) = Some r) = (fst kb = show_int r)"
      unfolding i rebuild_key_show_int' by simp
  qed
  show "jmap_get (rebuildDiffMapFromSnapshot ?obj) (Some r) = jmap_get dm r"
    unfolding lookup f find_fst_map_of bucket_object_lookup [OF assms]
    by (simp add: copy_bucket_id split: option.splits)
  have "rebuild_key (fst kb) \<noteq> None" if "kb \<in> set ?obj" for kb
  proof -
    from keys [OF that] obtain i where "fst kb = show_int i" by blast
    then show ?thesis by (simp only: rebuild_key_show_int') simp
  qed
  then have "find (\<lambda>kb. rebuild_key (fst kb) = None) ?obj = None"
    unfolding find_None_iff by blast
  then show "jmap_get (rebuildDiffMapFromSnapshot ?obj) None = None"
    unfolding lookup by simp
qed

lemma bucket_step_keys_distinct:
  "distinct (map fst dm) \<Longrightarrow> distinct (map fst (bucket_step pm om sm key dm))"
  by (simp add: bucket_step_def Let_def distinct_jmap_set split: option.splits)

lemma fold_bucket_step_keys_distinct:
  "distinct (map fst dm) \<Longrightarrow> distinct (map fst (fold (bucket_step pm om sm) keys dm))"
  by (induction keys arbitrary: dm) (simp_all add: bucket_step_keys_distinct)

lemma live_buckets_distinct: "distinct (map fst (live_buckets (buildAllTagDifficultyBuckets ag) t))"
  unfolding live_buckets_def buckets_of_tag
  by (simp add: fold_bucket_step_keys_distinct)

lemma tagArray_tags_distinct: "distinct (map tag (tagArray (fresh_agg subs ps)))"
proof -
  let ?ru = "build_rollup (classify (ix_probIndex (build_index ps)) subs)
               (ix_perProblemMeta (build_index ps))"
  obtain f where f: "tagArray (fresh_agg subs ps) = map f (tagArray (aggregate subs ps))"
    and tf: "\<And>x. tag (f x) = tag x"
    using fresh_agg_tagArray [of subs ps] by blast
  define stats where "stats = map (post_pass (ru_tagRatingsAll ?ru)) (map snd (ru_tagStats ?ru))"
  have "\<forall>x \<in> set (ru_tagStats ?ru). tag (post_pass (ru_tagRatingsAll ?ru) (snd x)) = fst x"
    using build_rollup_tag by (simp add: post_pass_counts)
  then have "map tag stats = map fst (ru_tagStats ?ru)"
    by (simp add: stats_def)
  moreover have "distinct (map fst (ru_tagStats ?ru))"
    by (rule build_rollup_keys_distinct)
  ultimately have d: "distinct (map tag stats)"
    by (simp only:)
  have "tagArray (aggregate subs ps) = sort_key (\<lambda>s. - int (solved s)) stats"
    by (simp add: aggregate_def Let_def stats_def)
  then have "mset (tagArray (aggregate subs ps)) = mset stats"
    by simp
  then have "image_mset tag (mset (tagArray (aggregate subs ps))) = image_mset tag (mset stats)"
    by (rule arg_cong)
  then have "mset (map tag (tagArray (aggregate subs ps))) = mset (map tag stats)"
    by (simp only: mset_map)
  then have "distinct (map tag (tagArray (aggregate subs ps)))"
    using d mset_eq_imp_distinct_iff by blast
  then show ?thesis by (simp add: f tf comp_def)
qed

lemma probKey_dash: "CHR ''-'' \<in> set (probKey (Some p))"
  by simp

lemma probKey_not_proto: "probKey (Some p) \<noteq> ''__proto__''"
proof
  assume "probKey (Some p) = ''__proto__''"
  then have "CHR ''-'' \<in> set ''__proto__''" using probKey_dash [of p] by (simp only:)
  then show False by simp
qed

lemma build_index_keys:
  "fst ` set (ix_probIndex (build_index ps)) = fst ` set (ix_perProblemMeta (build_index ps)) \<and>
   (\<forall>k \<in> fst ` set (ix_perProblemMeta (build_index ps)). \<exists>p. k = probKey (Some p))"
proof -
  have "fst ` set (ix_probIndex ix) = fst ` set (ix_perProblemMeta ix) \<and>
        (\<forall>k \<in> fst ` set (ix_perProblemMeta ix). \<exists>p. k = probKey (Some p)) \<Longrightarrow>
        fst ` set (ix_probIndex (fold index_step xs ix)) =
          fst ` set (ix_perProblemMeta (fold index_step xs ix)) \<and>
        (\<forall>k \<in> fst ` set (ix_perProblemMeta (fold index_step xs ix)). \<exists>p. k = probKey (Some p))"
    for xs ix
  proof (induction xs arbitrary: ix)
    case Nil
    then show ?case by simp
  next
    case (Cons x xs)
    have "fst ` set (ix_probIndex (index_step x ix)) = fst ` set (ix_perProblemMeta (index_step x ix)) \<and>
        (\<forall>k \<in> fst ` set (ix_perProblemMeta (index_step x ix)). \<exists>p. k = probKey (Some p))"
      using Cons.prems
      by (auto simp: index_step_def Let_def fst_image_jmap_set simp del: probKey.simps)
    from Cons.IH [OF this] show ?case by simp
  qed
  from this [of "\<lparr> ix_probIndex = [], ix_perProblemMeta = [] \<rparr>" "problems ps"]
  show ?thesis by (simp add: build_index_def)
qed

lemma indexed_has_meta:
  "jmap_has (ix_probIndex (build_index ps)) k = (jmap_get (ix_perProblemMeta (build_index ps)) k \<noteq> None)"
  using build_index_keys [of ps]
  by (simp add: jmap_has_def jmap_get_def map_of_eq_None_iff del: not_None_eq)

lemma meta_key_not_proto:
  "jmap_get (ix_perProblemMeta (build_index ps)) k \<noteq> None \<Longrightarrow> k \<noteq> ''__proto__''"
proof -
  assume "jmap_get (ix_perProblemMeta (build_index ps)) k \<noteq> None"
  then have "k \<in> fst ` set (ix_perProblemMeta (build_index ps))"
    by (simp add: jmap_get_def map_of_eq_None_iff del: not_None_eq)
  with build_index_keys [of ps] obtain p where "k = probKey (Some p)" by blast
  then show ?thesis using probKey_not_proto by simp
qed

lemma sub_key_indexed: "sub_key ix sub = Some k \<Longrightarrow> jmap_has ix k"
  by (auto simp: sub_key_def split: option.splits if_splits)

text \<open>The classifier records facts for indexed keys only, and an origin only with \<open>solved\<close>.\<close>

lemma classify_facts:
  fixes ix subs k
  defines "st \<equiv> jmap_get (cl_perProblemStatus (classify ix subs)) k"
    and "og \<equiv> jmap_get (cl_perProblemOrigin (classify ix subs)) k"
  shows "st \<noteq> None \<Longrightarrow> jmap_has ix k"
    and "opt_contest og \<Longrightarrow> opt_solved st"
    and "opt_practice og \<Longrightarrow> opt_solved st"
proof -
  show "st \<noteq> None \<Longrightarrow> jmap_has ix k"
    unfolding st_def classify_def fold_present
    by (auto simp: jmap_get_Nil dest: sub_key_indexed)
  show "opt_contest og \<Longrightarrow> opt_solved st"
    unfolding st_def og_def classify_def fold_contest fold_solved
    by (auto simp: jmap_get_Nil opt_contest_def)
  show "opt_practice og \<Longrightarrow> opt_solved st"
    unfolding st_def og_def classify_def fold_practice fold_solved
    by (auto simp: jmap_get_Nil opt_practice_def)
qed

lemma opt_flags_present:
  "opt_solved st \<Longrightarrow> st \<noteq> None" "opt_failedContest st \<Longrightarrow> st \<noteq> None"
  "opt_failedPractice st \<Longrightarrow> st \<noteq> None"
  by (cases st; simp add: opt_solved_def opt_failedContest_def opt_failedPractice_def)+

lemma rehydrate_fold_maps:
  "perProblemStatus (fold rehydrate_problem xs ag) =
     fold (\<lambda>kp m. jmap_set m (fst kp) (entry_status (snd kp))) xs (perProblemStatus ag) \<and>
   perProblemOrigin (fold rehydrate_problem xs ag) =
     fold (\<lambda>kp m. jmap_set m (fst kp) (entry_origin (snd kp))) xs (perProblemOrigin ag) \<and>
   tagArray (fold rehydrate_problem xs ag) = tagArray ag"
  by (induction xs arbitrary: ag)
     (simp_all add: rehydrate_problem_def Let_def entry_status_def entry_origin_def)

lemma rehydrate_maps:
  "perProblemStatus (rehydrate snap) =
     fold (\<lambda>kp m. jmap_set m (fst kp) (entry_status (snd kp))) (snap_problems snap) [] \<and>
   perProblemOrigin (rehydrate snap) =
     fold (\<lambda>kp m. jmap_set m (fst kp) (entry_origin (snd kp))) (snap_problems snap) [] \<and>
   tagArray (rehydrate snap) = map rehydrate_tag (snap_tags snap)"
  by (simp add: rehydrate_def Let_def rehydrate_fold_maps split: option.splits)

lemma fresh_snapshot_fields:
  "snap_problems (build_fresh_snapshot hdl now subs ps) =
     fold (\<lambda>km obj. jobj_set obj (fst km)
             (problem_entry (perProblemOrigin (fresh_agg subs ps))
                (perProblemStatus (fresh_agg subs ps)) (fst km) (snd km)))
       (perProblemMeta (fresh_agg subs ps)) [] \<and>
   snap_tags (build_fresh_snapshot hdl now subs ps) =
     fold (\<lambda>stat obj. jobj_set obj (tag stat)
             (tag_entry (buildAllTagDifficultyBuckets (fresh_agg subs ps)) stat))
       (tagArray (fresh_agg subs ps)) []"
  by (simp add: build_fresh_snapshot_def buildSnapshot_def Let_def)

text \<open>The entry that the snapshot holds for a problem key.\<close>

lemma snapshot_problem_lookup:
  "map_of (snap_problems (build_fresh_snapshot hdl now subs ps)) k =
     (case jmap_get (perProblemMeta (fresh_agg subs ps)) k of
        None \<Rightarrow> None
      | Some m \<Rightarrow> Some (problem_entry (perProblemOrigin (fresh_agg subs ps))
                         (perProblemStatus (fresh_agg subs ps)) k m))"
proof (cases "k = ''__proto__''")
  case True
  have "jmap_get (perProblemMeta (fresh_agg subs ps)) k = None"
    using meta_key_not_proto [of ps k] True
    by (cases "jmap_get (ix_perProblemMeta (build_index ps)) k")
       (simp_all add: fresh_agg_maps aggregate_meta)
  then show ?thesis
    unfolding fresh_snapshot_fields [THEN conjunct1] True fold_jobj_set_proto by (simp add: True)
next
  case False
  have d: "distinct (map fst (perProblemMeta (fresh_agg subs ps)))"
    by (simp add: fresh_agg_maps aggregate_meta build_index_keys_distinct)
  show ?thesis
    unfolding fresh_snapshot_fields [THEN conjunct1] fold_jobj_set_lookup [OF d False]
      find_fst_map_of
    by (simp add: jmap_get_def split: option.splits)
qed

lemma snapshot_problems_distinct:
  "distinct (map fst (snap_problems (build_fresh_snapshot hdl now subs ps)))"
  unfolding fresh_snapshot_fields [THEN conjunct1] by (rule fold_jobj_set_distinct) simp

lemma round_trip_status:
  "jmap_get (perProblemStatus (round_trip hdl now subs ps)) k =
     map_option entry_status (map_of (snap_problems (build_fresh_snapshot hdl now subs ps)) k)"
  unfolding round_trip_def rehydrate_maps [THEN conjunct1]
    fold_jmap_set_lookup [OF snapshot_problems_distinct] find_fst_map_of
  by (simp add: jmap_get_Nil split: option.splits)

lemma round_trip_origin:
  "jmap_get (perProblemOrigin (round_trip hdl now subs ps)) k =
     map_option entry_origin (map_of (snap_problems (build_fresh_snapshot hdl now subs ps)) k)"
  unfolding round_trip_def rehydrate_maps [THEN conjunct2, THEN conjunct1]
    fold_jmap_set_lookup [OF snapshot_problems_distinct] find_fst_map_of
  by (simp add: jmap_get_Nil split: option.splits)

end
